theory Spec2Isabelle
  imports Main "HOL-Library.AList" "HOL-Library.Multiset"
begin

section \<open>The scheduler of the Hacker News pipeline: DAG and Pipeline\<close>

text \<open>
  The notebook defines two classes. \<open>DAG\<close> keeps an adjacency mapping \<open>self.graph\<close>
  (a Python \<open>dict\<close> from node to the list of its successors) and, once \<open>in_degrees\<close> has
  run, a second dict \<open>self.degrees\<close>. \<open>Pipeline\<close> owns one \<open>DAG\<close> in \<open>self.tasks\<close>.

  A Python dict iterates in insertion order, and \<open>DAG.sort\<close> and \<open>Pipeline.run\<close> both
  iterate over dicts, so a dict is an association list here: \<open>d[k] = v\<close> is
  \<open>AList.update k v d\<close> (replace in place, or append at the end when \<open>k\<close> is new),
  \<open>d[k]\<close> is \<open>map_of d k\<close> with \<open>None\<close> standing for \<open>KeyError\<close>, and \<open>k in d\<close> is
  \<open>map_of d k \<noteq> None\<close>. Python's integers are unbounded: \<open>int\<close>.
\<close>

subsection \<open>Data\<close>

datatype error = KeyError | Exception

datatype 'e failure = Raised error | WorkFailure 'e

type_synonym 'a adjacency = "('a \<times> 'a list) list"

type_synonym 'a degree_table = "('a \<times> int) list"

record 'a DAG =
  graph :: "'a adjacency"
  degrees :: "'a degree_table"

text \<open>\<open>DAG.__init__\<close> sets \<open>self.graph = {}\<close>; \<open>self.degrees\<close> does not exist before the
  first \<open>in_degrees\<close>, which assigns it a fresh dict before any read: the empty table stands
  for the missing attribute.\<close>

definition DAG_init :: "'a DAG" where
  "DAG_init = \<lparr>graph = [], degrees = []\<rparr>"

subsection \<open>\<open>DAG.in_degrees\<close>\<close>

text \<open>The inner loop \<open>for pointer in self.graph[node]\<close>: a pointer seen for the first time
  gets 1, one seen before is incremented.\<close>

primrec count_pointers :: "'a list \<Rightarrow> 'a degree_table \<Rightarrow> 'a degree_table" where
  "count_pointers [] deg = deg"
| "count_pointers (pointer # rest) deg =
     count_pointers rest
       (case map_of deg pointer of
          None \<Rightarrow> AList.update pointer 1 deg
        | Some c \<Rightarrow> AList.update pointer (c + 1) deg)"

text \<open>The outer loop \<open>for node in self.graph\<close>; \<open>self.graph[node]\<close> is the list stored
  with the key being visited.\<close>

primrec count_nodes :: "'a adjacency \<Rightarrow> 'a degree_table \<Rightarrow> 'a degree_table" where
  "count_nodes [] deg = deg"
| "count_nodes (item # rest) deg =
     count_nodes rest
       (count_pointers (snd item)
          (if map_of deg (fst item) = None then AList.update (fst item) 0 deg else deg))"

definition DAG_in_degrees :: "'a DAG \<Rightarrow> 'a DAG" where
  "DAG_in_degrees dag = dag\<lparr>degrees := count_nodes (graph dag) []\<rparr>"

subsection \<open>\<open>DAG.sort\<close>\<close>

text \<open>The loop \<open>for pointer in self.graph[node_i]\<close> of \<open>sort\<close>, on the pair of the degree
  table and the deque: \<open>self.degrees[pointer] -= 1\<close> raises \<open>KeyError\<close> on a pointer the
  table does not have (the table is then as it was), and a pointer whose count has just
  become zero is appended to the deque.\<close>

primrec relax ::
  "'a list \<Rightarrow> 'a degree_table \<Rightarrow> 'a list \<Rightarrow> (error \<times> 'a degree_table) + ('a degree_table \<times> 'a list)"
where
  "relax [] deg d = Inr (deg, d)"
| "relax (pointer # rest) deg d =
     (case map_of deg pointer of
        None \<Rightarrow> Inl (KeyError, deg)
      | Some c \<Rightarrow>
          relax rest (AList.update pointer (c - 1) deg) (if c - 1 = 0 then d @ [pointer] else d))"

definition positive :: "'a degree_table \<Rightarrow> nat" where
  "positive deg = length (filter (\<lambda>kv. 0 < snd kv) deg)"

lemma positive_update:
  "map_of deg k = Some c \<Longrightarrow>
   positive (AList.update k v deg) + (if 0 < c then 1 else 0)
     = positive deg + (if 0 < v then 1 else 0)"
  by (induction deg) (auto simp: positive_def)

lemma relax_measure:
  "relax ps deg d = Inr (deg', d') \<Longrightarrow> length d' + positive deg' = length d + positive deg"
proof (induction ps arbitrary: deg d)
  case Nil
  then show ?case by simp
next
  case (Cons p ps)
  then obtain c where c: "map_of deg p = Some c"
    by (auto split: option.splits)
  show ?case
  proof (cases "c = 1")
    case True
    with Cons.prems c have "relax ps (AList.update p 0 deg) (d @ [p]) = Inr (deg', d')"
      by simp
    from Cons.IH [OF this] positive_update [OF c, of 0] True show ?thesis
      by simp
  next
    case False
    with Cons.prems c have "relax ps (AList.update p (c - 1) deg) d = Inr (deg', d')"
      by simp
    from Cons.IH [OF this] positive_update [OF c, of "c - 1"] False show ?thesis
      by (simp split: if_splits)
  qed
qed

text \<open>The \<open>while d\<close> loop: \<open>d.popleft()\<close> takes the head of the deque, \<open>self.graph[node_i]\<close>
  raises \<open>KeyError\<close> on a node that is no key, the successors are relaxed and the node is
  appended to \<open>searched\<close>. The result comes with the degree table as the loop leaves it.\<close>

function kahn ::
  "'a adjacency \<Rightarrow> 'a degree_table \<Rightarrow> 'a list \<Rightarrow> 'a list \<Rightarrow> (error + 'a list) \<times> 'a degree_table"
where
  "kahn g deg [] searched = (Inr searched, deg)"
| "kahn g deg (node_i # d) searched =
     (case map_of g node_i of
        None \<Rightarrow> (Inl KeyError, deg)
      | Some ps \<Rightarrow>
          (case relax ps deg d of
             Inl (e, deg') \<Rightarrow> (Inl e, deg')
           | Inr (deg', d') \<Rightarrow> kahn g deg' d' (searched @ [node_i])))"
  by pat_completeness auto
termination
proof (relation "measure (\<lambda>(g, deg, d, searched). length d + positive deg)")
  show "wf (measure (\<lambda>(g, deg, d, searched). length d + positive deg))"
    by simp
next
  fix g :: "'a adjacency" and deg :: "'a degree_table" and node_i :: 'a
    and d searched ps :: "'a list" and x deg' d'
  assume "relax ps deg d = Inr x" and "(deg', d') = x"
  then have "relax ps deg d = Inr (deg', d')" by simp
  from relax_measure [OF this]
  show "((g, deg', d', searched @ [node_i]), (g, deg, node_i # d, searched))
          \<in> measure (\<lambda>(g, deg, d, searched). length d + positive deg)"
    by simp
qed

text \<open>The deque is seeded with the keys of the degree table whose count is zero, in the
  table's order.\<close>

definition seed :: "'a degree_table \<Rightarrow> 'a list" where
  "seed deg = map fst (filter (\<lambda>kv. snd kv = 0) deg)"

definition DAG_sort :: "'a DAG \<Rightarrow> (error + 'a list) \<times> 'a DAG" where
  "DAG_sort dag =
     (let dag1 = DAG_in_degrees dag;
          r = kahn (graph dag1) (degrees dag1) (seed (degrees dag1)) []
      in (fst r, dag1\<lparr>degrees := snd r\<rparr>))"

subsection \<open>\<open>DAG.add\<close>\<close>

text \<open>\<open>self.graph[node].append(to)\<close> extends the list stored under \<open>node\<close>, which is a key
  by then.\<close>

definition append_pointer :: "'a \<Rightarrow> 'a \<Rightarrow> 'a adjacency \<Rightarrow> 'a adjacency" where
  "append_pointer node to g = map (\<lambda>item. if fst item = node then (fst item, snd item @ [to]) else item) g"

definition add_key :: "'a \<Rightarrow> 'a adjacency \<Rightarrow> 'a adjacency" where
  "add_key node g = (if map_of g node = None then AList.update node [] g else g)"

text \<open>\<open>to=None\<close> is \<open>None\<close> here, a given \<open>to\<close> is \<open>Some\<close>: the nodes of a pipeline are
  functions, which Python's \<open>if to:\<close> takes as true (a node that Python takes as false
  would be treated as no \<open>to\<close> at all, which is the case \<open>None\<close>). The mutation of
  \<open>self.graph\<close> is done before the check, so it stays when the check raises.\<close>

definition DAG_add :: "'a DAG \<Rightarrow> 'a \<Rightarrow> 'a option \<Rightarrow> (error + unit) \<times> 'a DAG" where
  "DAG_add dag node to =
     (let g1 = add_key node (graph dag);
          g2 = (case to of None \<Rightarrow> g1 | Some t \<Rightarrow> append_pointer node t (add_key t g1));
          r = DAG_sort (dag\<lparr>graph := g2\<rparr>)
      in case fst r of
           Inl e \<Rightarrow> (Inl e, snd r)
         | Inr searched \<Rightarrow>
             if length searched > length (graph (snd r)) then (Inl Exception, snd r)
             else (Inr (), snd r))"

subsection \<open>\<open>Pipeline\<close>\<close>

record 'a Pipeline =
  tasks :: "'a DAG"

definition Pipeline_init :: "'a Pipeline" where
  "Pipeline_init = \<lparr>tasks = DAG_init\<rparr>"

text \<open>\<open>pipeline.task(depends_on)(f)\<close>: the decorator adds \<open>f\<close>, then the edge from
  \<open>depends_on\<close> to \<open>f\<close> when \<open>depends_on\<close> is given (\<open>if depends_on:\<close>, true of every
  function), and returns \<open>f\<close>. An exception of \<open>add\<close> leaves through the decorator.\<close>

definition Pipeline_task :: "'a Pipeline \<Rightarrow> 'a option \<Rightarrow> 'a \<Rightarrow> (error + 'a) \<times> 'a Pipeline" where
  "Pipeline_task p depends_on f =
     (let r1 = DAG_add (tasks p) f None
      in case fst r1 of
           Inl e \<Rightarrow> (Inl e, p\<lparr>tasks := snd r1\<rparr>)
         | Inr u \<Rightarrow>
             (case depends_on of
                None \<Rightarrow> (Inr f, p\<lparr>tasks := snd r1\<rparr>)
              | Some dep \<Rightarrow>
                  (let r2 = DAG_add (snd r1) dep (Some f)
                   in case fst r2 of
                        Inl e \<Rightarrow> (Inl e, p\<lparr>tasks := snd r2\<rparr>)
                      | Inr u \<Rightarrow> (Inr f, p\<lparr>tasks := snd r2\<rparr>))))"

text \<open>A node of the pipeline is a Python function, called with no argument or with one.
  Here a node is an identity of type \<open>'a\<close>, and what calling it does is given by
  \<open>work task input\<close>: \<open>input\<close> is \<open>None\<close> for \<open>task()\<close> and \<open>Some x\<close> for \<open>task(x)\<close>; the
  call returns a value (\<open>Inr\<close>) or raises (\<open>Inl\<close>).

  The state of a run is the dict \<open>completed\<close>, together with the list \<open>calls\<close> of the
  invocations made so far, in order, each with its input. The source keeps no such list:
  it records the effect of \<open>run\<close> on the units of work, so that "never invoked" can
  be said.\<close>

type_synonym ('a, 'v, 'e) work = "'a \<Rightarrow> 'v option \<Rightarrow> 'e + 'v"

record ('a, 'v) run_state =
  completed :: "('a \<times> 'v) list"
  calls :: "('a \<times> 'v option) list"

type_synonym ('a, 'v, 'e) outcome = "('e failure \<times> ('a, 'v) run_state) + ('a, 'v) run_state"

text \<open>The loop \<open>for node, values in self.tasks.graph.items()\<close>: for every key whose list
  holds the task, \<open>completed[task] = task(completed[node])\<close>. \<open>completed[node]\<close> raises
  \<open>KeyError\<close> when the node has no entry. A failure comes with the state it leaves.\<close>

primrec feed ::
  "('a, 'v, 'e) work \<Rightarrow> 'a \<Rightarrow> 'a adjacency \<Rightarrow> ('a, 'v) run_state \<Rightarrow> ('a, 'v, 'e) outcome"
where
  "feed work task [] st = Inr st"
| "feed work task (item # rest) st =
     (if task \<in> set (snd item) then
        (case map_of (completed st) (fst item) of
           None \<Rightarrow> Inl (Raised KeyError, st)
         | Some x \<Rightarrow>
             (case work task (Some x) of
                Inl e \<Rightarrow> Inl (WorkFailure e, st\<lparr>calls := calls st @ [(task, Some x)]\<rparr>)
              | Inr y \<Rightarrow>
                  feed work task rest
                    \<lparr>completed = AList.update task y (completed st),
                     calls = calls st @ [(task, Some x)]\<rparr>))
      else feed work task rest st)"

text \<open>One iteration of \<open>for task in scheduled\<close>: the loop above, then
  \<open>if task not in completed: completed[task] = task()\<close>.\<close>

definition run_task ::
  "('a, 'v, 'e) work \<Rightarrow> 'a adjacency \<Rightarrow> 'a \<Rightarrow> ('a, 'v) run_state \<Rightarrow> ('a, 'v, 'e) outcome"
where
  "run_task work g task st =
     (case feed work task g st of
        Inl f \<Rightarrow> Inl f
      | Inr st1 \<Rightarrow>
          if map_of (completed st1) task = None then
            (case work task None of
               Inl e \<Rightarrow> Inl (WorkFailure e, st1\<lparr>calls := calls st1 @ [(task, None)]\<rparr>)
             | Inr y \<Rightarrow>
                 Inr \<lparr>completed = AList.update task y (completed st1),
                      calls = calls st1 @ [(task, None)]\<rparr>)
          else Inr st1)"

primrec run_scheduled ::
  "('a, 'v, 'e) work \<Rightarrow> 'a adjacency \<Rightarrow> 'a list \<Rightarrow> ('a, 'v) run_state \<Rightarrow> ('a, 'v, 'e) outcome"
where
  "run_scheduled work g [] st = Inr st"
| "run_scheduled work g (task # rest) st =
     (case run_task work g task st of
        Inl f \<Rightarrow> Inl f
      | Inr st1 \<Rightarrow> run_scheduled work g rest st1)"

text \<open>\<open>Pipeline.run\<close>: \<open>self.tasks.sort()\<close> (which rewrites \<open>self.tasks.degrees\<close>), then the
  loop from \<open>completed = {}\<close>. On \<open>Inr st\<close> the dict returned is \<open>completed st\<close>. An
  exception of \<open>sort\<close> leaves before \<open>completed\<close> exists: the state given with it is the
  empty one.\<close>

definition Pipeline_run ::
  "('a, 'v, 'e) work \<Rightarrow> 'a Pipeline \<Rightarrow> ('a, 'v, 'e) outcome \<times> 'a Pipeline"
where
  "Pipeline_run work p =
     (let r = DAG_sort (tasks p);
          p1 = p\<lparr>tasks := snd r\<rparr>
      in case fst r of
           Inl e \<Rightarrow> (Inl (Raised e, \<lparr>completed = [], calls = []\<rparr>), p1)
         | Inr scheduled \<Rightarrow>
             (run_scheduled work (graph (tasks p1)) scheduled \<lparr>completed = [], calls = []\<rparr>, p1))"

text \<open>The pipeline after a sequence of decorator applications on a fresh \<open>Pipeline()\<close>, each
  a pair of \<open>depends_on\<close> and the function.\<close>

definition Pipeline_tasks :: "('a option \<times> 'a) list \<Rightarrow> 'a Pipeline" where
  "Pipeline_tasks regs = foldl (\<lambda>p reg. snd (Pipeline_task p (fst reg) (snd reg))) Pipeline_init regs"

section \<open>Notions used in the statements\<close>

subsection \<open>Graphs\<close>

text \<open>The keys of the adjacency mapping in insertion order, the entries of all successor lists in
  the order a scan meets them, and the directed edges as a set of pairs. A directed cycle of
  the graph is a cycle of \<open>edges g\<close>: the graph has none when \<open>acyclic
  (edges g)\<close>.\<close>

definition nodes :: "'a adjacency \<Rightarrow> 'a list" where
  "nodes g = map fst g"

definition pointers :: "'a adjacency \<Rightarrow> 'a list" where
  "pointers g = concat (map snd g)"

definition edges :: "'a adjacency \<Rightarrow> ('a \<times> 'a) set" where
  "edges g = (\<Union>item \<in> set g. Pair (fst item) ` set (snd item))"

text \<open>What every graph built by \<open>add\<close> satisfies: the keys are pairwise different (it is
  a dict) and every pointer is a key.\<close>

definition well_formed :: "'a adjacency \<Rightarrow> bool" where
  "well_formed g \<longleftrightarrow> distinct (nodes g) \<and> set (pointers g) \<subseteq> set (nodes g)"

text \<open>The number of direct predecessors of a node, counted as the occurrences of the node in the
  successor lists.\<close>

definition occurrences :: "'a adjacency \<Rightarrow> 'a \<Rightarrow> nat" where
  "occurrences g v = count_list (pointers g) v"

text \<open>The adjacency mapping after the two insertions and the append of \<open>DAG.add\<close>,
  before its check.\<close>

definition added :: "'a adjacency \<Rightarrow> 'a \<Rightarrow> 'a option \<Rightarrow> 'a adjacency" where
  "added g node to =
     (case to of None \<Rightarrow> add_key node g | Some t \<Rightarrow> append_pointer node t (add_key t (add_key node g)))"

text \<open>The DAG after a sequence of calls \<open>add(node, to)\<close> on a fresh
  \<open>DAG()\<close>. The state of each call is taken whether it returned or raised, as a
  caller that catches the exception would find it.\<close>

definition DAG_adds :: "('a \<times> 'a option) list \<Rightarrow> 'a DAG" where
  "DAG_adds ops = foldl (\<lambda>dag op. snd (DAG_add dag (fst op) (snd op))) DAG_init ops"

subsection \<open>The invariant of the sorting loop\<close>

text \<open>The number of occurrences of a node in the successor lists of the keys outside
  \<open>S\<close>.\<close>

definition remaining :: "'a adjacency \<Rightarrow> 'a set \<Rightarrow> 'a \<Rightarrow> nat" where
  "remaining g S v = occurrences (filter (\<lambda>item. fst item \<notin> S) g) v"

text \<open>The pointers of a list whose count reaches zero while the list is relaxed.\<close>

definition zeroed :: "'a degree_table \<Rightarrow> 'a list \<Rightarrow> 'a set" where
  "zeroed deg ps = {v \<in> set ps. \<exists>c. map_of deg v = Some c \<and> 0 < c \<and> c \<le> int (count_list ps v)}"

text \<open>Every predecessor of an element of the sequence stands before it.\<close>

definition topo :: "'a adjacency \<Rightarrow> 'a list \<Rightarrow> bool" where
  "topo g xs \<longleftrightarrow> (\<forall>i<length xs. \<forall>u. (u, xs ! i) \<in> edges g \<longrightarrow> u \<in> set (take i xs))"

text \<open>The invariant of the \<open>while d\<close> loop: no node is twice in \<open>searched\<close>
  and the deque together, the table holds for each node the occurrences that the nodes still
  to be searched contribute, and exactly the nodes whose count is zero are in
  \<open>searched\<close> or in the deque.\<close>

definition kahn_inv :: "'a adjacency \<Rightarrow> 'a degree_table \<Rightarrow> 'a list \<Rightarrow> 'a list \<Rightarrow> bool" where
  "kahn_inv g deg d searched \<longleftrightarrow>
     distinct (searched @ d) \<and> set (searched @ d) \<subseteq> set (nodes g) \<and>
     (\<forall>v \<in> set (nodes g). map_of deg v = Some (int (remaining g (set searched) v))) \<and>
     (\<forall>v \<in> set (nodes g). v \<in> set (searched @ d) \<longleftrightarrow> remaining g (set searched) v = 0) \<and>
     topo g searched"

text \<open>A node is in the sequence exactly when all its predecessors are.\<close>

definition closed :: "'a adjacency \<Rightarrow> 'a list \<Rightarrow> bool" where
  "closed g res \<longleftrightarrow>
     (\<forall>v \<in> set (nodes g). v \<in> set res \<longleftrightarrow> (\<forall>u. (u, v) \<in> edges g \<longrightarrow> u \<in> set res))"

subsection \<open>Runs\<close>

text \<open>The keys whose successor list holds the task, in the order of the scan of
  \<open>graph.items()\<close>.\<close>

definition preds :: "'a adjacency \<Rightarrow> 'a \<Rightarrow> 'a list" where
  "preds g task = map fst (filter (\<lambda>item. task \<in> set (snd item)) g)"

text \<open>The edges in the order of the scan: keys in insertion order, then each successor list in its
  order; and the source of the last scanned edge that points to a task (read only where some
  edge points to the task).\<close>

definition scanned_edges :: "'a adjacency \<Rightarrow> ('a \<times> 'a) list" where
  "scanned_edges g = concat (map (\<lambda>item. map (Pair (fst item)) (snd item)) g)"

definition last_predecessor :: "'a adjacency \<Rightarrow> 'a \<Rightarrow> 'a" where
  "last_predecessor g t = fst (last (filter (\<lambda>e. snd e = t) (scanned_edges g)))"

text \<open>The loop of \<open>feed\<close> on the list of the predecessors alone.\<close>

primrec feed_from ::
  "('a, 'v, 'e) work \<Rightarrow> 'a \<Rightarrow> 'a list \<Rightarrow> ('a, 'v) run_state \<Rightarrow> ('a, 'v, 'e) outcome"
where
  "feed_from work task [] st = Inr st"
| "feed_from work task (node # rest) st =
     (case map_of (completed st) node of
        None \<Rightarrow> Inl (Raised KeyError, st)
      | Some x \<Rightarrow>
          (case work task (Some x) of
             Inl e \<Rightarrow> Inl (WorkFailure e, st\<lparr>calls := calls st @ [(task, Some x)]\<rparr>)
           | Inr y \<Rightarrow>
               feed_from work task rest
                 \<lparr>completed = AList.update task y (completed st),
                  calls = calls st @ [(task, Some x)]\<rparr>))"

text \<open>The state of a run at \<open>completed = {}\<close>.\<close>

definition start :: "('a, 'v) run_state" where
  "start = \<lparr>completed = [], calls = []\<rparr>"

text \<open>Every invocation of a list returned a value.\<close>

definition returned :: "('a, 'v, 'e) work \<Rightarrow> ('a \<times> 'v option) list \<Rightarrow> bool" where
  "returned work cs \<longleftrightarrow> (\<forall>c \<in> set cs. \<exists>y. work (fst c) (snd c) = Inr y)"

text \<open>The entry of a task in the table: the value of \<open>task()\<close> when the task has no
  predecessor, else the value of the task on the entry of its last predecessor.\<close>

definition recorded :: "('a, 'v, 'e) work \<Rightarrow> 'a adjacency \<Rightarrow> ('a \<times> 'v) list \<Rightarrow> 'a \<Rightarrow> bool" where
  "recorded work g c t \<longleftrightarrow>
     (\<exists>y. map_of c t = Some y \<and>
        (if preds g t = [] then work t None = Inr y
         else \<exists>x. map_of c (last (preds g t)) = Some x \<and> work t (Some x) = Inr y))"

text \<open>The input of an invocation of a task: nothing when the task has no predecessor, else the entry
  of one of its predecessors.\<close>

definition legit :: "'a adjacency \<Rightarrow> ('a \<times> 'v) list \<Rightarrow> 'a \<Rightarrow> 'v option \<Rightarrow> bool" where
  "legit g c t x \<longleftrightarrow>
     (case x of None \<Rightarrow> preds g t = []
      | Some v \<Rightarrow> \<exists>u \<in> set (preds g t). map_of c u = Some v)"

text \<open>What holds after the loop of \<open>run\<close> has gone through a schedule, and what holds
  when it stopped on a failure: the failure is the one raised by the last invocation, of a
  task \<open>t\<close> of the schedule, and the invocations before it are those of the tasks
  before \<open>t\<close> and possibly earlier ones of \<open>t\<close> itself.\<close>

definition run_ok ::
  "('a, 'v, 'e) work \<Rightarrow> 'a adjacency \<Rightarrow> 'a list \<Rightarrow> ('a, 'v) run_state \<Rightarrow> bool" where
  "run_ok work g xs st \<longleftrightarrow>
     fst ` set (completed st) = set xs \<and> fst ` set (calls st) = set xs \<and>
     returned work (calls st) \<and> (\<forall>t \<in> set xs. recorded work g (completed st) t)"

definition run_failed ::
  "('a, 'v, 'e) work \<Rightarrow> 'a adjacency \<Rightarrow> 'a list \<Rightarrow> 'e failure \<Rightarrow> ('a, 'v) run_state \<Rightarrow> bool" where
  "run_failed work g xs f st \<longleftrightarrow>
     (\<exists>e pre t post x cs. f = WorkFailure e \<and> xs = pre @ t # post \<and> work t x = Inl e \<and>
        legit g (completed st) t x \<and> calls st = cs @ [(t, x)] \<and> returned work cs \<and>
        fst ` set (completed st) = fst ` set cs \<and> set pre \<subseteq> fst ` set cs \<and>
        fst ` set cs \<subseteq> insert t (set pre) \<and>
        (\<forall>u \<in> set pre. recorded work g (completed st) u))"

subsection \<open>Example pipelines and units of work\<close>

text \<open>Units of work on natural numbers as node identities: one that prepends its identity to its
  input, one that raises on the input 20, one that raises in node 2.\<close>

definition trace_work :: "(nat, nat list, string) work" where
  "trace_work t x = Inr (t # (case x of None \<Rightarrow> [] | Some xs \<Rightarrow> xs))"

definition picky :: "(nat, nat, string) work" where
  "picky t x = (case x of None \<Rightarrow> Inr (10 * t) | Some v \<Rightarrow> if v = 20 then Inl ''boom'' else Inr (v + t))"

definition evens_fails :: "(nat, nat, string) work" where
  "evens_fails t x = (if t = 2 then Inl ''boom'' else Inr (case x of None \<Rightarrow> 1 | Some v \<Rightarrow> v + t))"

text \<open>The diamond 1 \<rightarrow> 2, 1 \<rightarrow> 3, 2 \<rightarrow> 4, 3 \<rightarrow> 4 with 2
  registered before 3, the chain 1 \<rightarrow> 2 \<rightarrow> 3, and two sources 1 and 2
  that both point to 3.\<close>

definition diamond :: "(nat option \<times> nat) list" where
  "diamond = [(None, 1), (Some 1, 2), (Some 1, 3), (Some 2, 4), (Some 3, 4)]"

definition chain :: "(nat option \<times> nat) list" where
  "chain = [(None, 1), (Some 1, 2), (Some 2, 3)]"

definition two_sources :: "(nat option \<times> nat) list" where
  "two_sources = [(None, 1), (None, 2), (Some 1, 3), (Some 2, 3)]"

section \<open>Lemmas\<close>

subsection \<open>The degree table\<close>

lemma count_pointers_map_of:
  "map_of (count_pointers ps deg) v =
     (if v \<in> set ps
      then Some (int (count_list ps v) + (case map_of deg v of None \<Rightarrow> 0 | Some c \<Rightarrow> c))
      else map_of deg v)"
  by (induction ps arbitrary: deg) (auto simp: update_conv' split: option.splits)

lemma count_nodes_map_of:
  "map_of (count_nodes g deg) v =
     (if v \<in> set (nodes g) \<union> set (pointers g)
      then Some (int (occurrences g v) + (case map_of deg v of None \<Rightarrow> 0 | Some c \<Rightarrow> c))
      else map_of deg v)"
proof (induction g arbitrary: deg)
  case Nil
  then show ?case by (simp add: nodes_def pointers_def)
next
  case (Cons item g)
  show ?case
    by (cases "map_of deg (fst item)"; cases "map_of deg v")
       (auto simp: Cons.IH count_pointers_map_of update_conv' nodes_def pointers_def occurrences_def)
qed

lemma count_pointers_distinct:
  "distinct (map fst deg) \<Longrightarrow> distinct (map fst (count_pointers ps deg))"
  by (induction ps arbitrary: deg) (auto simp: distinct_update split: option.splits)

lemma count_nodes_distinct:
  "distinct (map fst deg) \<Longrightarrow> distinct (map fst (count_nodes g deg))"
  by (induction g arbitrary: deg) (auto simp: distinct_update count_pointers_distinct)

lemma in_degrees_map_of:
  "map_of (degrees (DAG_in_degrees dag)) v =
     (if v \<in> set (nodes (graph dag)) \<union> set (pointers (graph dag))
      then Some (int (occurrences (graph dag) v)) else None)"
  by (simp add: DAG_in_degrees_def count_nodes_map_of)

subsection \<open>Relaxing the successors of a node\<close>

lemma relax_ok:
  "set ps \<subseteq> fst ` set deg \<Longrightarrow> \<exists>deg' d'. relax ps deg d = Inr (deg', d')"
proof (induction ps arbitrary: deg d)
  case Nil
  then show ?case by simp
next
  case (Cons p ps)
  then obtain c where c: "map_of deg p = Some c"
    by (metis list.set_intros(1) subsetD weak_map_of_SomeI map_of_eq_None_iff not_None_eq)
  have "set ps \<subseteq> fst ` set (AList.update p (c - 1) deg)"
    using Cons.prems by (auto simp: dom_update)
  from Cons.IH [OF this] c show ?case by simp
qed

lemma relax_map_of:
  "relax ps deg d = Inr (deg', d') \<Longrightarrow>
   map_of deg' v = map_option (\<lambda>c. c - int (count_list ps v)) (map_of deg v)"
proof (induction ps arbitrary: deg d)
  case Nil
  then show ?case by (simp add: option.map_ident)
next
  case (Cons p ps)
  then obtain c where c: "map_of deg p = Some c"
    by (auto split: option.splits)
  with Cons.prems have
    "relax ps (AList.update p (c - 1) deg) (if c - 1 = 0 then d @ [p] else d) = Inr (deg', d')"
    by simp
  from Cons.IH [OF this] c show ?case
    by (cases "map_of deg v") (auto simp: update_conv')
qed

lemma zeroed_Cons:
  assumes "map_of deg p = Some c"
  shows "zeroed deg (p # ps) = (if c = 1 then {p} else {}) \<union> zeroed (AList.update p (c - 1) deg) ps"
proof -
  have "v \<in> zeroed deg (p # ps) \<longleftrightarrow>
        v \<in> (if c = 1 then {p} else {}) \<union> zeroed (AList.update p (c - 1) deg) ps" for v
  proof (cases "v = p")
    case True
    have "0 < c - 1 \<and> c - 1 \<le> int (count_list ps p) \<Longrightarrow> p \<in> set ps"
      by (metis count_list_0_iff int_ops(1) not_less order.trans leD le_less)
    then show ?thesis
      using assms True by (auto simp: zeroed_def update_conv')
  next
    case False
    then show ?thesis
      using assms by (auto simp: zeroed_def update_conv')
  qed
  then show ?thesis by blast
qed

lemma relax_queue:
  "relax ps deg d = Inr (deg', d') \<Longrightarrow>
   \<exists>new. d' = d @ new \<and> distinct new \<and> set new = zeroed deg ps"
proof (induction ps arbitrary: deg d)
  case Nil
  then show ?case by (simp add: zeroed_def)
next
  case (Cons p ps)
  then obtain c where c: "map_of deg p = Some c"
    by (auto split: option.splits)
  let ?deg1 = "AList.update p (c - 1) deg"
  show ?case
  proof (cases "c = 1")
    case True
    with Cons.prems c have "relax ps ?deg1 (d @ [p]) = Inr (deg', d')"
      by simp
    from Cons.IH [OF this] obtain new where
      new: "d' = (d @ [p]) @ new" "distinct new" "set new = zeroed ?deg1 ps"
      by blast
    have "p \<notin> zeroed ?deg1 ps"
      using True by (simp add: zeroed_def update_conv')
    with new have "d' = d @ (p # new) \<and> distinct (p # new) \<and> set (p # new) = zeroed deg (p # ps)"
      using True by (simp add: zeroed_Cons [OF c])
    then show ?thesis by blast
  next
    case False
    with Cons.prems c have "relax ps ?deg1 d = Inr (deg', d')"
      by simp
    from Cons.IH [OF this] obtain new where
      new: "d' = d @ new" "distinct new" "set new = zeroed ?deg1 ps"
      by blast
    then show ?thesis
      using False by (auto simp: zeroed_Cons [OF c])
  qed
qed

subsection \<open>The loop of \<open>sort\<close>\<close>

lemma remaining_empty: "remaining g {} v = occurrences g v"
  by (simp add: remaining_def)

lemma remaining_insert:
  "distinct (nodes g) \<Longrightarrow> (n, ps) \<in> set g \<Longrightarrow> n \<notin> S \<Longrightarrow>
   remaining g S v = remaining g (insert n S) v + count_list ps v"
proof (induction g)
  case Nil
  then show ?case by simp
next
  case (Cons item g)
  show ?case
  proof (cases "item = (n, ps)")
    case True
    with Cons.prems have "n \<notin> fst ` set g"
      by (simp add: nodes_def)
    then have "filter (\<lambda>item. fst item \<notin> insert n S) g = filter (\<lambda>item. fst item \<notin> S) g"
      by (intro filter_cong) auto
    with True Cons.prems show ?thesis
      by (simp add: remaining_def occurrences_def pointers_def)
  next
    case False
    with Cons.prems have "(n, ps) \<in> set g" "distinct (nodes g)" "fst item \<noteq> n"
      by (auto simp: nodes_def rev_image_eqI)
    with Cons.IH Cons.prems show ?thesis
      by (simp add: remaining_def occurrences_def pointers_def)
  qed
qed

lemma edges_iff: "(u, v) \<in> edges g \<longleftrightarrow> (\<exists>ps. (u, ps) \<in> set g \<and> v \<in> set ps)"
  by (force simp: edges_def)

lemma remaining_zero_iff:
  "remaining g S v = 0 \<longleftrightarrow> (\<forall>u. (u, v) \<in> edges g \<longrightarrow> u \<in> S)"
  by (fastforce simp: remaining_def occurrences_def pointers_def edges_iff count_list_0_iff)

lemma topo_Nil: "topo g []"
  by (simp add: topo_def)

lemma topo_snoc:
  "topo g xs \<Longrightarrow> (\<And>u. (u, n) \<in> edges g \<Longrightarrow> u \<in> set xs) \<Longrightarrow> topo g (xs @ [n])"
  by (auto simp: topo_def nth_append less_Suc_eq)

lemma kahn_step:
  assumes wf: "well_formed g" and inv: "kahn_inv g deg (n # d) searched"
  shows "\<exists>ps deg' d'. map_of g n = Some ps \<and> relax ps deg d = Inr (deg', d') \<and>
           kahn_inv g deg' d' (searched @ [n])"
proof -
  let ?S = "set searched"
  from inv have dist: "distinct (searched @ n # d)"
    and sub: "set (searched @ n # d) \<subseteq> set (nodes g)"
    and degs: "\<And>v. v \<in> set (nodes g) \<Longrightarrow> map_of deg v = Some (int (remaining g ?S v))"
    and zero: "\<And>v. v \<in> set (nodes g) \<Longrightarrow> v \<in> set (searched @ n # d) \<longleftrightarrow> remaining g ?S v = 0"
    and tp: "topo g searched"
    by (auto simp: kahn_inv_def)
  from wf have dg: "distinct (nodes g)" and ptr: "set (pointers g) \<subseteq> set (nodes g)"
    by (auto simp: well_formed_def)
  from sub have n_node: "n \<in> set (nodes g)" by simp
  then obtain ps where ps: "(n, ps) \<in> set g"
    by (auto simp: nodes_def)
  with dg have look: "map_of g n = Some ps"
    by (simp add: nodes_def)
  from ps ptr have ps_nodes: "set ps \<subseteq> set (nodes g)"
    by (fastforce simp: pointers_def)
  have "set ps \<subseteq> fst ` set deg"
  proof
    fix v assume "v \<in> set ps"
    with ps_nodes degs have "map_of deg v \<noteq> None" by auto
    then show "v \<in> fst ` set deg" by (simp add: map_of_eq_None_iff)
  qed
  from relax_ok [OF this] obtain deg' d' where rel: "relax ps deg d = Inr (deg', d')"
    by blast
  from dist have n_new: "n \<notin> ?S" by simp
  have rem: "remaining g ?S v = remaining g (insert n ?S) v + count_list ps v" for v
    by (rule remaining_insert [OF dg ps n_new])
  have degs': "map_of deg' v = Some (int (remaining g (insert n ?S) v))" if "v \<in> set (nodes g)" for v
    using relax_map_of [OF rel, of v] degs [OF that] rem [of v] by simp
  from relax_queue [OF rel] obtain new where
    new: "d' = d @ new" "distinct new" "set new = zeroed deg ps"
    by blast
  have new_iff: "v \<in> set new \<longleftrightarrow> 0 < remaining g ?S v \<and> remaining g (insert n ?S) v = 0"
    if "v \<in> set (nodes g)" for v
  proof -
    have "count_list ps v = 0 \<Longrightarrow> v \<notin> set ps"
      by (simp add: count_list_0_iff)
    then show ?thesis
      using degs [OF that] rem [of v] ps_nodes new(3)
      by (auto simp: zeroed_def)
  qed
  have new_nodes: "set new \<subseteq> set (nodes g)"
    using new(3) ps_nodes by (auto simp: zeroed_def)
  have fresh: "v \<notin> set (searched @ n # d)" if "v \<in> set new" for v
    using that new_nodes new_iff [of v] zero [of v] by auto
  have d1: "distinct ((searched @ [n]) @ d')"
    using dist new fresh by auto
  have d2: "set ((searched @ [n]) @ d') \<subseteq> set (nodes g)"
    using sub new new_nodes by auto
  have d4: "v \<in> set ((searched @ [n]) @ d') \<longleftrightarrow> remaining g (set (searched @ [n])) v = 0"
    if "v \<in> set (nodes g)" for v
    using zero [OF that] new_iff [OF that] rem [of v] new(1) by auto
  have "remaining g ?S n = 0"
    using zero [OF n_node] by simp
  then have "\<And>u. (u, n) \<in> edges g \<Longrightarrow> u \<in> ?S"
    by (simp add: remaining_zero_iff)
  with tp have d5: "topo g (searched @ [n])"
    by (rule topo_snoc)
  from d1 d2 degs' d4 d5 have "kahn_inv g deg' d' (searched @ [n])"
    unfolding kahn_inv_def by simp
  with look rel show ?thesis by blast
qed

lemma kahn_correct:
  "well_formed g \<Longrightarrow> kahn_inv g deg d searched \<Longrightarrow>
   \<exists>res deg'. kahn g deg d searched = (Inr res, deg') \<and> kahn_inv g deg' [] res"
proof (induction g deg d searched rule: kahn.induct)
  case (1 g deg searched)
  then show ?case by simp
next
  case (2 g deg node_i d searched)
  from kahn_step [OF "2.prems"] obtain ps deg' d' where
    st: "map_of g node_i = Some ps" "relax ps deg d = Inr (deg', d')"
        "kahn_inv g deg' d' (searched @ [node_i])"
    by blast
  from "2.IH" [OF st(1) st(2) refl "2.prems"(1) st(3)] st(1,2) show ?case
    by simp
qed

lemma seed_set:
  "distinct (map fst deg) \<Longrightarrow> set (seed deg) = {v. map_of deg v = Some 0}"
  by (force simp: seed_def)

lemma seed_distinct: "distinct (map fst deg) \<Longrightarrow> distinct (seed deg)"
  by (simp add: seed_def distinct_map_filter)

lemma seed_inv:
  assumes "well_formed g"
  shows "kahn_inv g (count_nodes g []) (seed (count_nodes g [])) []"
proof -
  let ?deg = "count_nodes g []"
  have dk: "distinct (map fst ?deg)"
    by (rule count_nodes_distinct) simp
  from assms have ptr: "set (pointers g) \<subseteq> set (nodes g)"
    by (simp add: well_formed_def)
  have look: "map_of ?deg v = (if v \<in> set (nodes g) then Some (int (occurrences g v)) else None)" for v
    using ptr by (auto simp: count_nodes_map_of)
  have "set (seed ?deg) = {v \<in> set (nodes g). occurrences g v = 0}"
    by (auto simp: seed_set [OF dk] look)
  then show ?thesis
    by (auto simp: kahn_inv_def seed_distinct [OF dk] look remaining_empty topo_Nil)
qed

lemma sort_graph: "graph (snd (DAG_sort dag)) = graph dag"
  by (simp add: DAG_sort_def DAG_in_degrees_def Let_def)

lemma sort_sound:
  assumes "well_formed (graph dag)"
  shows "\<exists>res. fst (DAG_sort dag) = Inr res \<and> distinct res \<and>
           set res \<subseteq> set (nodes (graph dag)) \<and> topo (graph dag) res \<and> closed (graph dag) res"
proof -
  let ?g = "graph dag"
  from kahn_correct [OF assms seed_inv [OF assms]] obtain res deg' where
    k: "kahn ?g (count_nodes ?g []) (seed (count_nodes ?g [])) [] = (Inr res, deg')"
    and inv: "kahn_inv ?g deg' [] res"
    by blast
  from k have "fst (DAG_sort dag) = Inr res"
    by (simp add: DAG_sort_def DAG_in_degrees_def Let_def)
  moreover from inv have "distinct res" "set res \<subseteq> set (nodes ?g)" "topo ?g res" "closed ?g res"
    by (auto simp: kahn_inv_def closed_def remaining_zero_iff)
  ultimately show ?thesis by blast
qed

subsection \<open>Acyclic graphs and complete orders\<close>

lemma finite_edges: "finite (edges g)"
  by (simp add: edges_def)

lemma edges_nodes:
  assumes "well_formed g" and "(u, v) \<in> edges g"
  shows "u \<in> set (nodes g) \<and> v \<in> set (nodes g)"
proof -
  from assms(2) obtain ps where ps: "(u, ps) \<in> set g" "v \<in> set ps"
    by (auto simp: edges_iff)
  then have "u \<in> set (nodes g)" "v \<in> set (pointers g)"
    by (force simp: nodes_def pointers_def)+
  with assms(1) show ?thesis
    by (auto simp: well_formed_def)
qed

lemma acyclic_complete:
  assumes wf: "well_formed g" and ac: "acyclic (edges g)"
    and sub: "set res \<subseteq> set (nodes g)" and cl: "closed g res"
  shows "set res = set (nodes g)"
proof (rule ccontr)
  assume "set res \<noteq> set (nodes g)"
  with sub obtain x where x: "x \<in> set (nodes g) - set res" by blast
  have "wf (edges g)"
    using finite_edges ac by (rule finite_acyclic_wf)
  from wfE_min [OF this x] obtain z where
    z: "z \<in> set (nodes g) - set res" and min: "\<And>y. (y, z) \<in> edges g \<Longrightarrow> y \<notin> set (nodes g) - set res"
    by blast
  from z cl have "\<not> (\<forall>u. (u, z) \<in> edges g \<longrightarrow> u \<in> set res)"
    unfolding closed_def by blast
  then obtain u where u: "(u, z) \<in> edges g" "u \<notin> set res"
    by blast
  with edges_nodes [OF wf u(1)] min [OF u(1)] show False by blast
qed

lemma topo_acyclic:
  assumes wf: "well_formed g" and dist: "distinct res"
    and all: "set res = set (nodes g)" and tp: "topo g res"
  shows "acyclic (edges g)"
proof -
  define pos where "pos x = (LEAST i. i < length res \<and> res ! i = x)" for x
  have pos: "pos (res ! i) = i" if "i < length res" for i
    unfolding pos_def using that dist
    by (intro Least_equality) (auto simp: nth_eq_iff_index_eq)
  have "pos u < pos v" if e: "(u, v) \<in> edges g" for u v
  proof -
    from edges_nodes [OF wf e] all have "v \<in> set res"
      by simp
    then obtain j where j: "j < length res" "res ! j = v"
      by (auto simp: in_set_conv_nth)
    with tp e have "u \<in> set (take j res)"
      by (auto simp: topo_def)
    then obtain i where "i < j" "res ! i = u"
      using j(1) by (auto simp: in_set_conv_nth)
    with j pos [of i] pos [of j] show ?thesis by auto
  qed
  then have "edges g \<subseteq> inv_image less_than pos"
    by auto
  moreover have "acyclic (inv_image less_than pos :: ('a \<times> 'a) set)"
    by (intro wf_acyclic wf_inv_image wf_less_than)
  ultimately show ?thesis
    by (rule acyclic_subset [rotated])
qed

lemma topo_positions:
  assumes tp: "topo g res" and e: "(u, v) \<in> edges g" and v: "v \<in> set res"
  shows "\<exists>i j. i < j \<and> j < length res \<and> res ! i = u \<and> res ! j = v"
proof -
  from v obtain j where j: "j < length res" "res ! j = v"
    by (auto simp: in_set_conv_nth)
  with tp e have "u \<in> set (take j res)"
    by (auto simp: topo_def)
  then obtain i where "i < j" "res ! i = u"
    using j(1) by (auto simp: in_set_conv_nth)
  with j show ?thesis by blast
qed

lemma distinct_subset_length:
  assumes "distinct xs" "distinct ys" "set xs \<subseteq> set ys"
  shows "length xs \<le> length ys \<and> (length xs = length ys \<longrightarrow> set xs = set ys)"
proof -
  have "card (set xs) \<le> card (set ys)"
    using assms(3) by (simp add: card_mono)
  moreover have "card (set xs) = card (set ys) \<Longrightarrow> set xs = set ys"
    using assms(3) by (simp add: card_subset_eq)
  ultimately show ?thesis
    using assms(1,2) by (simp add: distinct_card)
qed

subsection \<open>\<open>add\<close> keeps the graph well formed and returns\<close>

lemma update_absent: "map_of al k = None \<Longrightarrow> AList.update k v al = al @ [(k, v)]"
  by (induction al) (auto split: if_splits)

lemma well_formed_Nil: "well_formed []"
  by (simp add: well_formed_def nodes_def pointers_def)

lemma add_key_nodes: "set (nodes (add_key n g)) = insert n (set (nodes g))"
  by (auto simp: add_key_def nodes_def update_absent map_of_eq_None_iff rev_image_eqI)

lemma well_formed_add_key: "well_formed g \<Longrightarrow> well_formed (add_key n g)"
  by (auto simp: add_key_def well_formed_def nodes_def pointers_def update_absent map_of_eq_None_iff)

lemma append_pointer_nodes: "nodes (append_pointer n t g) = nodes g"
  by (simp add: append_pointer_def nodes_def comp_def if_distrib)

lemma append_pointer_pointers:
  "set (pointers (append_pointer n t g)) \<subseteq> insert t (set (pointers g))"
  by (auto simp: append_pointer_def pointers_def split: if_splits)

lemma well_formed_append_pointer:
  "well_formed g \<Longrightarrow> t \<in> set (nodes g) \<Longrightarrow> well_formed (append_pointer n t g)"
  using append_pointer_pointers [of n t g]
  by (auto simp: well_formed_def append_pointer_nodes)

lemma well_formed_added: "well_formed g \<Longrightarrow> well_formed (added g node to)"
  by (cases to)
     (simp_all add: added_def well_formed_add_key well_formed_append_pointer add_key_nodes)

lemma add_unfold:
  "DAG_add dag node to =
     (case fst (DAG_sort (dag\<lparr>graph := added (graph dag) node to\<rparr>)) of
        Inl e \<Rightarrow> (Inl e, snd (DAG_sort (dag\<lparr>graph := added (graph dag) node to\<rparr>)))
      | Inr searched \<Rightarrow>
          if length searched > length (graph (snd (DAG_sort (dag\<lparr>graph := added (graph dag) node to\<rparr>))))
          then (Inl Exception, snd (DAG_sort (dag\<lparr>graph := added (graph dag) node to\<rparr>)))
          else (Inr (), snd (DAG_sort (dag\<lparr>graph := added (graph dag) node to\<rparr>))))"
proof -
  have "(case to of None \<Rightarrow> add_key node (graph dag)
         | Some t \<Rightarrow> append_pointer node t (add_key t (add_key node (graph dag))))
        = added (graph dag) node to"
    by (simp add: added_def)
  then show ?thesis
    by (simp only: DAG_add_def Let_def)
qed

lemma add_graph: "graph (snd (DAG_add dag node to)) = added (graph dag) node to"
  by (simp add: add_unfold sort_graph split: sum.splits)

lemma sort_length:
  assumes "well_formed (graph dag)"
  shows "\<exists>res. fst (DAG_sort dag) = Inr res \<and> distinct res \<and> length res \<le> length (graph dag)"
proof -
  from sort_sound [OF assms] obtain res where
    r: "fst (DAG_sort dag) = Inr res" "distinct res" "set res \<subseteq> set (nodes (graph dag))"
    by blast
  from assms have "distinct (nodes (graph dag))"
    by (simp add: well_formed_def)
  from distinct_subset_length [OF r(2) this r(3)] r show ?thesis
    by (simp add: nodes_def)
qed

lemma add_returns:
  assumes "well_formed (graph dag)"
  shows "fst (DAG_add dag node to) = Inr ()"
proof -
  let ?dag = "dag\<lparr>graph := added (graph dag) node to\<rparr>"
  have "well_formed (graph ?dag)"
    using assms by (simp add: well_formed_added)
  from sort_length [OF this] obtain res where
    r: "fst (DAG_sort ?dag) = Inr res" "length res \<le> length (graph ?dag)"
    by blast
  from r show ?thesis
    by (simp add: add_unfold sort_graph)
qed

lemma adds_snoc:
  "DAG_adds (ops @ [op]) = snd (DAG_add (DAG_adds ops) (fst op) (snd op))"
  by (simp add: DAG_adds_def)

lemma well_formed_adds: "well_formed (graph (DAG_adds ops))"
proof (induction ops rule: rev_induct)
  case Nil
  then show ?case by (simp add: DAG_adds_def DAG_init_def well_formed_Nil)
next
  case (snoc op ops)
  then show ?case by (simp add: adds_snoc add_graph well_formed_added)
qed

subsection \<open>Evaluation of examples\<close>

lemma acyclic_empty: "acyclic {}"
  by (simp add: acyclic_def)

lemmas eval_defs =
  DAG_adds_def DAG_add_def DAG_init_def add_key_def append_pointer_def DAG_sort_def
  DAG_in_degrees_def seed_def nodes_def pointers_def edges_def occurrences_def

subsection \<open>One task of a run\<close>

lemma feed_preds: "feed work task g st = feed_from work task (preds g task) st"
  by (induction g arbitrary: st) (simp_all add: preds_def split: option.splits sum.splits)

lemma preds_set: "set (preds g t) = {u. (u, t) \<in> edges g}"
  by (force simp: preds_def edges_iff)

lemma returned_simps:
  "returned work []"
  "returned work (c # cs) \<longleftrightarrow> (\<exists>y. work (fst c) (snd c) = Inr y) \<and> returned work cs"
  "returned work (cs @ cs') \<longleftrightarrow> returned work cs \<and> returned work cs'"
  by (auto simp: returned_def)

lemma feed_from_Inr:
  assumes "task \<notin> set us" and "feed_from work task us st = Inr st1"
  shows "\<exists>cs. calls st1 = calls st @ cs \<and> fst ` set cs \<subseteq> {task} \<and> (cs = [] \<longleftrightarrow> us = []) \<and>
           returned work cs \<and>
           (if us = [] then completed st1 = completed st
            else \<exists>x y. map_of (completed st) (last us) = Some x \<and> work task (Some x) = Inr y \<and>
                   completed st1 = AList.update task y (completed st))"
  using assms
proof (induction us arbitrary: st)
  case Nil
  then show ?case by (simp add: returned_simps)
next
  case (Cons u us)
  from Cons.prems obtain x y where
    x: "map_of (completed st) u = Some x" and y: "work task (Some x) = Inr y"
    by (auto split: option.splits sum.splits)
  let ?st = "\<lparr>completed = AList.update task y (completed st), calls = calls st @ [(task, Some x)]\<rparr>"
  from Cons.prems x y have f: "feed_from work task us ?st = Inr st1" and nt: "task \<notin> set us"
    by auto
  from Cons.IH [OF nt f] obtain cs where
    cs: "calls st1 = calls ?st @ cs" "fst ` set cs \<subseteq> {task}" "returned work cs"
    and c: "if us = [] then completed st1 = completed ?st
            else \<exists>x y. map_of (completed ?st) (last us) = Some x \<and> work task (Some x) = Inr y \<and>
                   completed st1 = AList.update task y (completed ?st)"
    by blast
  have 1: "calls st1 = calls st @ ((task, Some x) # cs)"
    using cs(1) by simp
  have 2: "fst ` set ((task, Some x) # cs) \<subseteq> {task}"
    using cs(2) by simp
  have 3: "returned work ((task, Some x) # cs)"
    using cs(3) y by (simp add: returned_simps)
  have 4: "\<exists>x y. map_of (completed st) (last (u # us)) = Some x \<and> work task (Some x) = Inr y \<and>
                   completed st1 = AList.update task y (completed st)"
  proof (cases "us = []")
    case True
    with c x y show ?thesis by auto
  next
    case False
    then have "last us \<in> set us" by simp
    with nt have "last us \<noteq> task" by auto
    with c False show ?thesis
      by (auto simp: update_conv')
  qed
  from 1 2 3 4 show ?case
    by (intro exI [of _ "(task, Some x) # cs"]) simp
qed

lemma feed_from_Inl:
  assumes "task \<notin> set us" and "set us \<subseteq> fst ` set (completed st)"
    and "feed_from work task us st = Inl (f, st1)"
  shows "\<exists>e u x cs. f = WorkFailure e \<and> u \<in> set us \<and> map_of (completed st) u = Some x \<and>
           work task (Some x) = Inl e \<and> calls st1 = calls st @ cs @ [(task, Some x)] \<and>
           fst ` set cs \<subseteq> {task} \<and> returned work cs \<and>
           (if cs = [] then completed st1 = completed st
            else \<exists>y. completed st1 = AList.update task y (completed st))"
  using assms
proof (induction us arbitrary: st)
  case Nil
  then show ?case by simp
next
  case (Cons u us)
  from Cons.prems(2) obtain x where x: "map_of (completed st) u = Some x"
    by (metis list.set_intros(1) subsetD map_of_eq_None_iff not_None_eq)
  show ?case
  proof (cases "work task (Some x)")
    case (Inl e)
    with Cons.prems x have "f = WorkFailure e" "st1 = st\<lparr>calls := calls st @ [(task, Some x)]\<rparr>"
      by auto
    with x Inl show ?thesis
      by (intro exI [of _ e] exI [of _ u] exI [of _ x] exI [of _ "[]"]) (simp add: returned_simps)
  next
    case (Inr y)
    let ?st = "\<lparr>completed = AList.update task y (completed st), calls = calls st @ [(task, Some x)]\<rparr>"
    from Cons.prems x Inr have f: "feed_from work task us ?st = Inl (f, st1)"
      and nt: "task \<notin> set us" and sub: "set us \<subseteq> fst ` set (completed ?st)"
      by (auto simp: dom_update)
    from Cons.IH [OF nt sub f] obtain e u' x' cs where
      r: "f = WorkFailure e" "u' \<in> set us" "map_of (completed ?st) u' = Some x'"
         "work task (Some x') = Inl e" "calls st1 = calls ?st @ cs @ [(task, Some x')]"
         "fst ` set cs \<subseteq> {task}" "returned work cs"
         "if cs = [] then completed st1 = completed ?st
          else \<exists>y. completed st1 = AList.update task y (completed ?st)"
      by blast
    from r(2) nt have "u' \<noteq> task" by auto
    with r(3) have 1: "map_of (completed st) u' = Some x'"
      by (simp add: update_conv')
    have 2: "calls st1 = calls st @ ((task, Some x) # cs) @ [(task, Some x')]"
      using r(5) by simp
    have 3: "fst ` set ((task, Some x) # cs) \<subseteq> {task}" "returned work ((task, Some x) # cs)"
      using r(6,7) Inr by (simp_all add: returned_simps)
    have 4: "\<exists>y. completed st1 = AList.update task y (completed st)"
      using r(8) by (auto split: if_splits)
    from r(1,2,4) 1 2 3 4 show ?thesis
      by (intro exI [of _ e] exI [of _ u'] exI [of _ x'] exI [of _ "(task, Some x) # cs"]) simp
  qed
qed

lemma run_task_Inr:
  assumes self: "task \<notin> set (preds g task)" and new: "map_of (completed st) task = None"
    and run: "run_task work g task st = Inr st1"
  shows "\<exists>y cs. completed st1 = AList.update task y (completed st) \<and>
           (if preds g task = [] then work task None = Inr y
            else \<exists>x. map_of (completed st) (last (preds g task)) = Some x \<and>
                   work task (Some x) = Inr y) \<and>
           calls st1 = calls st @ cs \<and> fst ` set cs = {task} \<and> returned work cs"
proof -
  from run obtain st2 where f: "feed_from work task (preds g task) st = Inr st2"
    by (auto simp: run_task_def feed_preds split: sum.splits)
  from feed_from_Inr [OF self f] obtain cs where
    cs: "calls st2 = calls st @ cs" "fst ` set cs \<subseteq> {task}" "cs = [] \<longleftrightarrow> preds g task = []"
        "returned work cs"
    and c: "if preds g task = [] then completed st2 = completed st
            else \<exists>x y. map_of (completed st) (last (preds g task)) = Some x \<and>
                   work task (Some x) = Inr y \<and>
                   completed st2 = AList.update task y (completed st)"
    by blast
  show ?thesis
  proof (cases "preds g task = []")
    case True
    with c new have none: "map_of (completed st2) task = None" by simp
    with run f obtain y where
      y: "work task None = Inr y"
         "st1 = \<lparr>completed = AList.update task y (completed st2), calls = calls st2 @ [(task, None)]\<rparr>"
      by (auto simp: run_task_def feed_preds split: sum.splits)
    with True c cs have
      "completed st1 = AList.update task y (completed st)"
      "calls st1 = calls st @ [(task, None)]"
      by simp_all
    with True y(1) show ?thesis
      by (intro exI [of _ y] exI [of _ "[(task, None)]"]) (simp add: returned_simps)
  next
    case False
    with c obtain x y where
      xy: "map_of (completed st) (last (preds g task)) = Some x" "work task (Some x) = Inr y"
          "completed st2 = AList.update task y (completed st)"
      by auto
    then have "map_of (completed st2) task \<noteq> None"
      by (simp add: update_conv')
    with run f have "st1 = st2"
      by (auto simp: run_task_def feed_preds split: sum.splits)
    moreover from False cs(2,3) have "fst ` set cs = {task}"
      by (cases cs) auto
    ultimately show ?thesis
      using False xy cs(1,4) by (intro exI [of _ y] exI [of _ cs]) auto
  qed
qed

lemma run_task_Inl:
  assumes self: "task \<notin> set (preds g task)" and new: "map_of (completed st) task = None"
    and sub: "set (preds g task) \<subseteq> fst ` set (completed st)"
    and run: "run_task work g task st = Inl (f, st1)"
  shows "\<exists>e x cs. f = WorkFailure e \<and> work task x = Inl e \<and>
           (case x of None \<Rightarrow> preds g task = []
            | Some v \<Rightarrow> \<exists>u \<in> set (preds g task). map_of (completed st) u = Some v) \<and>
           calls st1 = calls st @ cs @ [(task, x)] \<and> fst ` set cs \<subseteq> {task} \<and> returned work cs \<and>
           (if cs = [] then completed st1 = completed st
            else \<exists>y. completed st1 = AList.update task y (completed st))"
proof (cases "feed_from work task (preds g task) st")
  case (Inl a)
  with run have "feed_from work task (preds g task) st = Inl (f, st1)"
    by (simp add: run_task_def feed_preds)
  from feed_from_Inl [OF self sub this] obtain e u x cs where
    r: "f = WorkFailure e" "u \<in> set (preds g task)" "map_of (completed st) u = Some x"
       "work task (Some x) = Inl e" "calls st1 = calls st @ cs @ [(task, Some x)]"
       "fst ` set cs \<subseteq> {task}" "returned work cs"
       "if cs = [] then completed st1 = completed st
        else \<exists>y. completed st1 = AList.update task y (completed st)"
    by blast
  then show ?thesis
    by (intro exI [of _ e] exI [of _ "Some x"] exI [of _ cs]) auto
next
  case (Inr st2)
  from feed_from_Inr [OF self Inr] obtain cs where
    cs: "calls st2 = calls st @ cs" "fst ` set cs \<subseteq> {task}" "cs = [] \<longleftrightarrow> preds g task = []"
        "returned work cs"
    and c: "if preds g task = [] then completed st2 = completed st
            else \<exists>x y. map_of (completed st) (last (preds g task)) = Some x \<and>
                   work task (Some x) = Inr y \<and>
                   completed st2 = AList.update task y (completed st)"
    by blast
  from run Inr obtain e where
    e: "map_of (completed st2) task = None" "work task None = Inl e" "f = WorkFailure e"
       "st1 = st2\<lparr>calls := calls st2 @ [(task, None)]\<rparr>"
    by (auto simp: run_task_def feed_preds split: sum.splits if_splits)
  have empty: "preds g task = []"
  proof (rule ccontr)
    assume "preds g task \<noteq> []"
    with c obtain y where "completed st2 = AList.update task y (completed st)" by auto
    with e(1) show False by (simp add: update_conv')
  qed
  with cs c e show ?thesis
    by (intro exI [of _ e] exI [of _ None] exI [of _ "[]"]) (simp add: returned_simps)
qed

subsection \<open>The loop of \<open>run\<close>\<close>

lemma run_scheduled_append:
  "run_scheduled work g (xs @ ys) st =
     (case run_scheduled work g xs st of
        Inl f \<Rightarrow> Inl f
      | Inr st1 \<Rightarrow> run_scheduled work g ys st1)"
  by (induction xs arbitrary: st) (simp_all split: sum.splits)

lemma topo_snocD:
  assumes "topo g (xs @ [t])"
  shows "topo g xs" and "set (preds g t) \<subseteq> set xs"
proof -
  show "topo g xs"
    unfolding topo_def
  proof (intro allI impI)
    fix i u assume i: "i < length xs" and e: "(u, xs ! i) \<in> edges g"
    with assms have "u \<in> set (take i (xs @ [t]))"
      unfolding topo_def by (metis length_append_singleton less_Suc_eq nth_append)
    with i show "u \<in> set (take i xs)" by simp
  qed
  have "u \<in> set xs" if "(u, t) \<in> edges g" for u
  proof -
    from assms that have "u \<in> set (take (length xs) (xs @ [t]))"
      unfolding topo_def by (metis length_append_singleton lessI nth_append_length)
    then show ?thesis by simp
  qed
  then show "set (preds g t) \<subseteq> set xs"
    by (auto simp: preds_set)
qed

lemma topo_preds:
  assumes "topo g xs" and "u \<in> set xs"
  shows "set (preds g u) \<subseteq> set xs"
proof
  fix v assume "v \<in> set (preds g u)"
  then have e: "(v, u) \<in> edges g" by (simp add: preds_set)
  from assms(2) obtain i where "i < length xs" "xs ! i = u"
    by (auto simp: in_set_conv_nth)
  with assms(1) e have "v \<in> set (take i xs)"
    by (auto simp: topo_def)
  then show "v \<in> set xs" by (rule in_set_takeD)
qed

lemma recorded_cong:
  assumes "recorded work g c u" and "set (preds g u) \<subseteq> A" and "u \<in> A"
    and "\<And>k. k \<in> A \<Longrightarrow> map_of c' k = map_of c k"
  shows "recorded work g c' u"
proof (cases "preds g u = []")
  case True
  with assms(1,3,4) show ?thesis by (simp add: recorded_def)
next
  case False
  then have "last (preds g u) \<in> A"
    using assms(2) last_in_set by blast
  with assms(1,3,4) False show ?thesis by (simp add: recorded_def)
qed

lemma run_step_ok:
  assumes ok: "run_ok work g xs st" and t: "t \<notin> set xs" and tp: "topo g (xs @ [t])"
    and run: "run_task work g t st = Inr st1"
  shows "run_ok work g (xs @ [t]) st1"
proof -
  from topo_snocD [OF tp] have tx: "topo g xs" and pt: "set (preds g t) \<subseteq> set xs" .
  from ok have keys: "fst ` set (completed st) = set xs" and cl: "fst ` set (calls st) = set xs"
    and ret: "returned work (calls st)" and rec: "\<And>u. u \<in> set xs \<Longrightarrow> recorded work g (completed st) u"
    by (auto simp: run_ok_def)
  from pt t have self: "t \<notin> set (preds g t)" by auto
  from keys t have new: "map_of (completed st) t = None"
    by (simp add: map_of_eq_None_iff)
  from run_task_Inr [OF self new run] obtain y cs where
    r: "completed st1 = AList.update t y (completed st)"
       "if preds g t = [] then work t None = Inr y
        else \<exists>x. map_of (completed st) (last (preds g t)) = Some x \<and> work t (Some x) = Inr y"
       "calls st1 = calls st @ cs" "fst ` set cs = {t}" "returned work cs"
    by blast
  have same: "map_of (completed st1) k = map_of (completed st) k" if "k \<in> set xs" for k
    using that t r(1) by (auto simp: update_conv')
  have 1: "fst ` set (completed st1) = set (xs @ [t])"
    using r(1) keys by (simp add: dom_update)
  have 2: "fst ` set (calls st1) = set (xs @ [t])"
    using r(3,4) cl by (simp add: image_Un)
  have 3: "returned work (calls st1)"
    using r(3,5) ret by (simp add: returned_simps)
  have 4: "recorded work g (completed st1) u" if "u \<in> set xs" for u
    using rec [OF that] topo_preds [OF tx that] that same by (rule recorded_cong)
  have 5: "recorded work g (completed st1) t"
  proof (cases "preds g t = []")
    case True
    with r(1,2) show ?thesis by (simp add: recorded_def update_conv')
  next
    case False
    then have "last (preds g t) \<in> set xs"
      using pt last_in_set by blast
    from same [OF this] r(1,2) False show ?thesis
      by (auto simp: recorded_def update_conv')
  qed
  from 1 2 3 4 5 show ?thesis
    by (auto simp: run_ok_def)
qed

lemma run_step_failed:
  assumes ok: "run_ok work g xs st" and t: "t \<notin> set xs" and tp: "topo g (xs @ [t])"
    and run: "run_task work g t st = Inl (f, st1)"
  shows "run_failed work g (xs @ [t]) f st1"
proof -
  from topo_snocD [OF tp] have tx: "topo g xs" and pt: "set (preds g t) \<subseteq> set xs" .
  from ok have keys: "fst ` set (completed st) = set xs" and cl: "fst ` set (calls st) = set xs"
    and ret: "returned work (calls st)" and rec: "\<And>u. u \<in> set xs \<Longrightarrow> recorded work g (completed st) u"
    by (auto simp: run_ok_def)
  from pt t have self: "t \<notin> set (preds g t)" by auto
  from keys t have new: "map_of (completed st) t = None"
    by (simp add: map_of_eq_None_iff)
  from pt keys have sub: "set (preds g t) \<subseteq> fst ` set (completed st)" by simp
  from run_task_Inl [OF self new sub run] obtain e x cs where
    r: "f = WorkFailure e" "work t x = Inl e"
       "case x of None \<Rightarrow> preds g t = []
        | Some v \<Rightarrow> \<exists>u \<in> set (preds g t). map_of (completed st) u = Some v"
       "calls st1 = calls st @ cs @ [(t, x)]" "fst ` set cs \<subseteq> {t}" "returned work cs"
       "if cs = [] then completed st1 = completed st
        else \<exists>y. completed st1 = AList.update t y (completed st)"
    by blast
  have same: "map_of (completed st1) k = map_of (completed st) k" if "k \<in> set xs" for k
    using that t r(7) by (auto simp: update_conv' split: if_splits)
  have 1: "legit g (completed st1) t x"
  proof (cases x)
    case None
    with r(3) show ?thesis by (simp add: legit_def)
  next
    case (Some v)
    with r(3) obtain u where u: "u \<in> set (preds g t)" "map_of (completed st) u = Some v"
      by auto
    with pt same [of u] have "map_of (completed st1) u = Some v" by auto
    with u(1) Some show ?thesis by (auto simp: legit_def)
  qed
  have 2: "calls st1 = (calls st @ cs) @ [(t, x)]"
    using r(4) by simp
  have 3: "returned work (calls st @ cs)"
    using ret r(6) by (simp add: returned_simps)
  have 4: "fst ` set (completed st1) = fst ` set (calls st @ cs)"
  proof (cases "cs = []")
    case True
    with r(7) keys cl show ?thesis by simp
  next
    case False
    with r(5) have "fst ` set cs = {t}" by (cases cs) auto
    moreover from False r(7) obtain y where "completed st1 = AList.update t y (completed st)"
      by auto
    ultimately show ?thesis
      using keys cl by (simp add: dom_update image_Un)
  qed
  have 5: "set xs \<subseteq> fst ` set (calls st @ cs)" "fst ` set (calls st @ cs) \<subseteq> insert t (set xs)"
    using cl r(5) by (auto simp: image_Un)
  have 6: "recorded work g (completed st1) u" if "u \<in> set xs" for u
    using rec [OF that] topo_preds [OF tx that] that same by (rule recorded_cong)
  from r(1,2) 1 2 3 4 5 6 show ?thesis
    unfolding run_failed_def
    by (intro exI [of _ e] exI [of _ xs] exI [of _ t] exI [of _ "[]"] exI [of _ x]
          exI [of _ "calls st @ cs"]) simp
qed

lemma run_failed_extend:
  assumes "run_failed work g xs f st"
  shows "run_failed work g (xs @ [t]) f st"
proof -
  from assms obtain e pre t' post x cs where
    r: "f = WorkFailure e" "xs = pre @ t' # post" "work t' x = Inl e"
       "legit g (completed st) t' x" "calls st = cs @ [(t', x)]" "returned work cs"
       "fst ` set (completed st) = fst ` set cs" "set pre \<subseteq> fst ` set cs"
       "fst ` set cs \<subseteq> insert t' (set pre)" "\<forall>u \<in> set pre. recorded work g (completed st) u"
    unfolding run_failed_def by (elim exE conjE) (rule that)
  from r(2) have "xs @ [t] = pre @ t' # (post @ [t])" by simp
  with r(1,3-10) show ?thesis
    unfolding run_failed_def
    by (intro exI [of _ e] exI [of _ pre] exI [of _ t'] exI [of _ "post @ [t]"] exI [of _ x]
          exI [of _ cs]) simp
qed

lemma run_prefix:
  assumes "distinct xs" and "topo g xs"
  shows "case run_scheduled work g xs start of
           Inl (f, st) \<Rightarrow> run_failed work g xs f st
         | Inr st \<Rightarrow> run_ok work g xs st"
  using assms
proof (induction xs rule: rev_induct)
  case Nil
  then show ?case
    by (simp add: run_ok_def start_def returned_simps)
next
  case (snoc t xs)
  from snoc.prems have d: "distinct xs" and t: "t \<notin> set xs" by simp_all
  from topo_snocD(1) [OF snoc.prems(2)] have tx: "topo g xs" .
  note IH = snoc.IH [OF d tx]
  show ?case
  proof (cases "run_scheduled work g xs start")
    case (Inl a)
    obtain f st where a: "a = (f, st)" by (cases a)
    with IH Inl have "run_failed work g xs f st" by simp
    then have "run_failed work g (xs @ [t]) f st" by (rule run_failed_extend)
    with Inl a show ?thesis
      by (simp add: run_scheduled_append)
  next
    case (Inr st)
    with IH have ok: "run_ok work g xs st" by simp
    show ?thesis
    proof (cases "run_task work g t st")
      case (Inl a)
      obtain f st1 where a: "a = (f, st1)" by (cases a)
      with Inl have "run_task work g t st = Inl (f, st1)" by simp
      from run_step_failed [OF ok t snoc.prems(2) this] Inl Inr a show ?thesis
        by (simp add: run_scheduled_append)
    next
      case (Inr st1)
      from run_step_ok [OF ok t snoc.prems(2) Inr] Inr \<open>run_scheduled work g xs start = Inr st\<close>
      show ?thesis
        by (simp add: run_scheduled_append)
    qed
  qed
qed

subsection \<open>Pipelines\<close>

lemma task_graph:
  assumes "well_formed (graph (tasks p))"
  shows "well_formed (graph (tasks (snd (Pipeline_task p depends_on f))))"
proof -
  let ?r1 = "DAG_add (tasks p) f None"
  have 1: "fst ?r1 = Inr ()" by (rule add_returns [OF assms])
  have w1: "well_formed (graph (snd ?r1))"
    using assms by (simp add: add_graph well_formed_added)
  show ?thesis
  proof (cases depends_on)
    case None
    with 1 w1 show ?thesis by (simp add: Pipeline_task_def)
  next
    case (Some dep)
    let ?r2 = "DAG_add (snd ?r1) dep (Some f)"
    have 2: "fst ?r2 = Inr ()" by (rule add_returns [OF w1])
    have "well_formed (graph (snd ?r2))"
      using w1 by (simp add: add_graph well_formed_added)
    with Some 1 2 show ?thesis by (simp add: Pipeline_task_def)
  qed
qed

lemma tasks_snoc:
  "Pipeline_tasks (regs @ [reg]) = snd (Pipeline_task (Pipeline_tasks regs) (fst reg) (snd reg))"
  by (simp add: Pipeline_tasks_def)

lemma well_formed_tasks: "well_formed (graph (tasks (Pipeline_tasks regs)))"
proof (induction regs rule: rev_induct)
  case Nil
  then show ?case
    by (simp add: Pipeline_tasks_def Pipeline_init_def DAG_init_def well_formed_Nil)
next
  case (snoc reg regs)
  then show ?case by (simp add: tasks_snoc task_graph)
qed

lemma run_unfold:
  assumes "fst (DAG_sort (tasks p)) = Inr scheduled"
  shows "fst (Pipeline_run work p) = run_scheduled work (graph (tasks p)) scheduled start"
  using assms by (simp add: Pipeline_run_def Let_def sort_graph start_def)

lemma run_cases:
  assumes wf: "well_formed (graph (tasks p))"
  shows "\<exists>scheduled. fst (DAG_sort (tasks p)) = Inr scheduled \<and> distinct scheduled \<and>
           set scheduled \<subseteq> set (nodes (graph (tasks p))) \<and> topo (graph (tasks p)) scheduled \<and>
           closed (graph (tasks p)) scheduled \<and>
           (case fst (Pipeline_run work p) of
              Inl (f, st) \<Rightarrow> run_failed work (graph (tasks p)) scheduled f st
            | Inr st \<Rightarrow> run_ok work (graph (tasks p)) scheduled st)"
proof -
  from sort_sound [OF wf] obtain res where
    r: "fst (DAG_sort (tasks p)) = Inr res" "distinct res" "set res \<subseteq> set (nodes (graph (tasks p)))"
       "topo (graph (tasks p)) res" "closed (graph (tasks p)) res"
    by blast
  from run_prefix [OF r(2,4), of work] run_unfold [OF r(1), of work] r show ?thesis
    by simp
qed

lemma scanned_edges_set: "set (scanned_edges g) = edges g"
  by (auto simp: scanned_edges_def edges_def)

lemma last_predecessor_preds:
  "preds g t \<noteq> [] \<Longrightarrow> last_predecessor g t = last (preds g t)"
proof (induction g rule: rev_induct)
  case Nil
  then show ?case by (simp add: preds_def)
next
  case (snoc item g)
  let ?new = "filter (\<lambda>e. snd e = t) (map (Pair (fst item)) (snd item))"
  show ?case
  proof (cases "t \<in> set (snd item)")
    case True
    then have ne: "?new \<noteq> []"
      by (auto simp: filter_empty_conv)
    then have "last ?new \<in> set ?new" by (rule last_in_set)
    then have "fst (last ?new) = fst item" by auto
    with ne True show ?thesis
      by (simp add: last_predecessor_def scanned_edges_def preds_def)
  next
    case False
    then have "?new = []"
      by (auto simp: filter_empty_conv)
    with False snoc show ?thesis
      by (simp add: last_predecessor_def scanned_edges_def preds_def)
  qed
qed

lemma topo_prefix:
  assumes "topo g (xs @ ys)"
  shows "topo g xs"
  unfolding topo_def
proof (intro allI impI)
  fix i u assume i: "i < length xs" and e: "(u, xs ! i) \<in> edges g"
  from i have "i < length (xs @ ys)" "(xs @ ys) ! i = xs ! i"
    by (simp_all add: nth_append)
  with assms e have "u \<in> set (take i (xs @ ys))"
    unfolding topo_def by metis
  with i show "u \<in> set (take i xs)" by simp
qed

lemmas run_defs =
  Pipeline_tasks_def Pipeline_task_def Pipeline_init_def Pipeline_run_def run_task_def
  DAG_add_def DAG_init_def add_key_def append_pointer_def DAG_sort_def DAG_in_degrees_def seed_def

subsection \<open>Example runs\<close>

lemma diamond_graph:
  "graph (tasks (Pipeline_tasks diamond)) = [(1, [2, 3]), (2, [4]), (3, [4]), (4, [])]"
  by (simp add: run_defs diamond_def)

lemma chain_graph:
  "graph (tasks (Pipeline_tasks chain)) = [(1, [2]), (2, [3]), (3, [])]"
  by (simp add: run_defs chain_def)

lemma two_sources_graph:
  "graph (tasks (Pipeline_tasks two_sources)) = [(1, [3]), (2, [3]), (3, [])]"
  by (simp add: run_defs two_sources_def)

lemma diamond_run:
  "fst (Pipeline_run trace_work (Pipeline_tasks diamond)) =
     Inr \<lparr>completed = [(1, [1]), (2, [2, 1]), (3, [3, 1]), (4, [4, 3, 1])],
          calls = [(1, None), (2, Some [1]), (3, Some [1]), (4, Some [2, 1]), (4, Some [3, 1])]\<rparr>"
  by (simp add: run_defs diamond_def trace_work_def)

lemma chain_fails:
  "fst (Pipeline_run evens_fails (Pipeline_tasks chain)) =
     Inl (WorkFailure ''boom'', \<lparr>completed = [(1, 1)], calls = [(1, None), (2, Some 1)]\<rparr>)"
  by (simp add: run_defs chain_def evens_fails_def)

section \<open>The claims\<close>

subsection \<open>Cycle rejection by \<open>add\<close>\<close>

text \<open>C1: an edge insertion whose resulting graph holds a directed cycle is to fail with a cycle
  error raised from that call. On the fresh graph, \<open>add(1, 1)\<close> returns without
  raising and leaves the self-loop in the graph: \<open>add\<close> raises when
  \<open>sort\<close> returns more nodes than the graph has, which never happens.\<close>

theorem add_accepts_self_loop:
  "fst (DAG_add DAG_init (1::nat) (Some 1)) = Inr () \<and>
   graph (snd (DAG_add DAG_init (1::nat) (Some 1))) = [(1, [1])] \<and>
   \<not> acyclic (edges (graph (snd (DAG_add DAG_init (1::nat) (Some 1)))))"
  by (simp add: eval_defs acyclic_empty rtrancl_insert)

subsection \<open>Topological order on acyclic graphs\<close>

text \<open>C2: on a graph built by \<open>add\<close> whose edges are acyclic, \<open>sort\<close>
  returns a permutation of all nodes in which the source of every edge stands before its
  target.\<close>

theorem sort_topological:
  assumes "acyclic (edges (graph (DAG_adds ops)))"
  shows "\<exists>res. fst (DAG_sort (DAG_adds ops)) = Inr res \<and>
           mset res = mset (nodes (graph (DAG_adds ops))) \<and>
           (\<forall>(u, v) \<in> edges (graph (DAG_adds ops)).
              \<exists>i j. i < j \<and> j < length res \<and> res ! i = u \<and> res ! j = v)"
proof -
  let ?g = "graph (DAG_adds ops)"
  have wf: "well_formed ?g" by (rule well_formed_adds)
  from sort_sound [OF wf] obtain res where
    r: "fst (DAG_sort (DAG_adds ops)) = Inr res" "distinct res" "set res \<subseteq> set (nodes ?g)"
       "topo ?g res" "closed ?g res"
    by blast
  from acyclic_complete [OF wf assms r(3) r(5)] have all: "set res = set (nodes ?g)" .
  from wf have "distinct (nodes ?g)" by (simp add: well_formed_def)
  with all r(2) have "mset res = mset (nodes ?g)"
    by (simp add: set_eq_iff_mset_eq_distinct)
  moreover have "\<exists>i j. i < j \<and> j < length res \<and> res ! i = u \<and> res ! j = v"
    if "(u, v) \<in> edges ?g" for u v
    using topo_positions [OF r(4) that] edges_nodes [OF wf that] all by simp
  ultimately show ?thesis
    using r(1) by blast
qed

theorem sort_topological_witness:
  "acyclic (edges (graph (DAG_adds [(1::nat, Some 2), (3, Some 2), (2, Some 4)]))) \<and>
   fst (DAG_sort (DAG_adds [(1::nat, Some 2), (3, Some 2), (2, Some 4)])) = Inr [1, 3, 2, 4] \<and>
   (\<exists>res. fst (DAG_sort (DAG_adds [(1::nat, Some 2), (3, Some 2), (2, Some 4)])) = Inr res \<and>
      mset res = mset (nodes (graph (DAG_adds [(1::nat, Some 2), (3, Some 2), (2, Some 4)]))) \<and>
      (\<forall>(u, v) \<in> edges (graph (DAG_adds [(1::nat, Some 2), (3, Some 2), (2, Some 4)])).
         \<exists>i j. i < j \<and> j < length res \<and> res ! i = u \<and> res ! j = v))"
proof -
  have g: "graph (DAG_adds [(1::nat, Some 2), (3, Some 2), (2, Some 4)])
             = [(1, [2]), (2, [4]), (3, [2]), (4, [])]"
    by (simp add: eval_defs)
  have a: "acyclic (edges (graph (DAG_adds [(1::nat, Some 2), (3, Some 2), (2, Some 4)])))"
    unfolding g by (simp add: edges_def acyclic_empty rtrancl_insert)
  have s: "fst (DAG_sort (DAG_adds [(1::nat, Some 2), (3, Some 2), (2, Some 4)])) = Inr [1, 3, 2, 4]"
    by (simp add: eval_defs)
  from a s sort_topological [OF a] show ?thesis by blast
qed

subsection \<open>Acyclicity after a successful \<open>add\<close>\<close>

text \<open>C3: after an \<open>add\<close> that returns, the graph is to hold no directed cycle.
  \<open>add(1, 2)\<close> then \<open>add(2, 1)\<close> both return, and the graph then holds
  the cycle between 1 and 2.\<close>

theorem adds_accept_two_cycle:
  "fst (DAG_add DAG_init (1::nat) (Some 2)) = Inr () \<and>
   fst (DAG_add (DAG_adds [(1::nat, Some 2)]) 2 (Some 1)) = Inr () \<and>
   graph (DAG_adds [(1::nat, Some 2), (2, Some 1)]) = [(1, [2]), (2, [1])] \<and>
   \<not> acyclic (edges (graph (DAG_adds [(1::nat, Some 2), (2, Some 1)])))"
  by (simp add: eval_defs acyclic_empty rtrancl_insert)

subsection \<open>Shorter order on cyclic graphs\<close>

text \<open>C4: on a graph built by \<open>add\<close> whose edges hold a directed cycle,
  \<open>sort\<close> returns a sequence shorter than the number of nodes.\<close>

theorem sort_cyclic_shorter:
  assumes "\<not> acyclic (edges (graph (DAG_adds ops)))"
  shows "\<exists>res. fst (DAG_sort (DAG_adds ops)) = Inr res \<and>
           length res < length (graph (DAG_adds ops))"
proof -
  let ?g = "graph (DAG_adds ops)"
  have wf: "well_formed ?g" by (rule well_formed_adds)
  from sort_sound [OF wf] obtain res where
    r: "fst (DAG_sort (DAG_adds ops)) = Inr res" "distinct res" "set res \<subseteq> set (nodes ?g)"
       "topo ?g res"
    by blast
  from wf have dn: "distinct (nodes ?g)" by (simp add: well_formed_def)
  from distinct_subset_length [OF r(2) dn r(3)]
  have le: "length res \<le> length ?g" and eq: "length res = length ?g \<Longrightarrow> set res = set (nodes ?g)"
    by (simp_all add: nodes_def)
  have "length res \<noteq> length ?g"
  proof
    assume "length res = length ?g"
    from topo_acyclic [OF wf r(2) eq [OF this] r(4)] assms show False by simp
  qed
  with le r(1) show ?thesis by auto
qed

theorem sort_cyclic_shorter_witness:
  "\<not> acyclic (edges (graph (DAG_adds [(1::nat, Some 2), (2, Some 3), (3, Some 2)]))) \<and>
   fst (DAG_sort (DAG_adds [(1::nat, Some 2), (2, Some 3), (3, Some 2)])) = Inr [1] \<and>
   (\<exists>res. fst (DAG_sort (DAG_adds [(1::nat, Some 2), (2, Some 3), (3, Some 2)])) = Inr res \<and>
      length res < length (graph (DAG_adds [(1::nat, Some 2), (2, Some 3), (3, Some 2)])))"
proof -
  have g: "graph (DAG_adds [(1::nat, Some 2), (2, Some 3), (3, Some 2)])
             = [(1, [2]), (2, [3]), (3, [2])]"
    by (simp add: eval_defs)
  have a: "\<not> acyclic (edges (graph (DAG_adds [(1::nat, Some 2), (2, Some 3), (3, Some 2)])))"
    unfolding g by (simp add: edges_def acyclic_empty rtrancl_insert)
  have s: "fst (DAG_sort (DAG_adds [(1::nat, Some 2), (2, Some 3), (3, Some 2)])) = Inr [1]"
    by (simp add: eval_defs)
  from a s sort_cyclic_shorter [OF a] show ?thesis by blast
qed

subsection \<open>No node twice\<close>

text \<open>C5: on every graph built by \<open>add\<close>, cyclic or not, \<open>sort\<close> returns a
  sequence in which no node occurs twice, and which is no longer than the number of nodes.\<close>

theorem sort_no_duplicates:
  "\<exists>res. fst (DAG_sort (DAG_adds ops)) = Inr res \<and> distinct res \<and>
         length res \<le> length (graph (DAG_adds ops))"
  by (rule sort_length [OF well_formed_adds])

theorem sort_no_duplicates_witness:
  "fst (DAG_sort (DAG_adds [(1::nat, Some 2), (1, Some 2), (2, Some 2), (3, None)])) = Inr [1, 3] \<and>
   length (graph (DAG_adds [(1::nat, Some 2), (1, Some 2), (2, Some 2), (3, None)])) = 3 \<and>
   (\<exists>res. fst (DAG_sort (DAG_adds [(1::nat, Some 2), (1, Some 2), (2, Some 2), (3, None)])) = Inr res \<and>
      distinct res \<and>
      length res \<le> length (graph (DAG_adds [(1::nat, Some 2), (1, Some 2), (2, Some 2), (3, None)])))"
proof -
  have s: "fst (DAG_sort (DAG_adds [(1::nat, Some 2), (1, Some 2), (2, Some 2), (3, None)])) = Inr [1, 3]"
    by (simp add: eval_defs)
  have l: "length (graph (DAG_adds [(1::nat, Some 2), (1, Some 2), (2, Some 2), (3, None)])) = 3"
    by (simp add: eval_defs)
  from s l sort_no_duplicates [of "[(1::nat, Some 2), (1, Some 2), (2, Some 2), (3, None)]"]
  show ?thesis by blast
qed

subsection \<open>The last predecessor wins\<close>

text \<open>C6: in a run that returns its table, on a pipeline built by the decorator, the entry of every
  recorded node that has a predecessor is the value of the node on the entry of its last
  predecessor, the source of the last scanned edge that points to the node; and when the graph
  is acyclic every node is recorded. In the diamond with 2 registered before 3, node 4 gets
  the output of 3.\<close>

theorem run_last_predecessor:
  assumes run: "fst (Pipeline_run work (Pipeline_tasks regs)) = Inr st"
  shows "(\<forall>u t. (u, t) \<in> edges (graph (tasks (Pipeline_tasks regs))) \<and>
            t \<in> fst ` set (completed st) \<longrightarrow>
            (\<exists>x y. map_of (completed st)
                     (last_predecessor (graph (tasks (Pipeline_tasks regs))) t) = Some x \<and>
                   work t (Some x) = Inr y \<and> map_of (completed st) t = Some y)) \<and>
         (acyclic (edges (graph (tasks (Pipeline_tasks regs)))) \<longrightarrow>
            fst ` set (completed st) = set (nodes (graph (tasks (Pipeline_tasks regs)))))"
proof -
  let ?g = "graph (tasks (Pipeline_tasks regs))"
  have wf: "well_formed ?g" by (rule well_formed_tasks)
  from run_cases [OF wf, of work] run obtain scheduled where
    s: "set scheduled \<subseteq> set (nodes ?g)" "closed ?g scheduled" "run_ok work ?g scheduled st"
    by auto
  from s(3) have keys: "fst ` set (completed st) = set scheduled"
    and rec: "\<And>t. t \<in> set scheduled \<Longrightarrow> recorded work ?g (completed st) t"
    by (simp_all add: run_ok_def)
  have "\<exists>x y. map_of (completed st) (last_predecessor ?g t) = Some x \<and>
               work t (Some x) = Inr y \<and> map_of (completed st) t = Some y"
    if e: "(u, t) \<in> edges ?g" and t: "t \<in> fst ` set (completed st)" for u t
  proof -
    from e have ne: "preds ?g t \<noteq> []"
      using preds_set [of ?g t] by auto
    from t keys have "recorded work ?g (completed st) t"
      by (simp add: rec)
    with ne last_predecessor_preds [OF ne] show ?thesis
      by (auto simp: recorded_def)
  qed
  moreover have "fst ` set (completed st) = set (nodes ?g)" if "acyclic (edges ?g)"
    using acyclic_complete [OF wf that s(1,2)] keys by simp
  ultimately show ?thesis by blast
qed

theorem run_last_predecessor_witness:
  "(2, 4) \<in> edges (graph (tasks (Pipeline_tasks diamond))) \<and>
   (3, 4) \<in> edges (graph (tasks (Pipeline_tasks diamond))) \<and>
   last_predecessor (graph (tasks (Pipeline_tasks diamond))) 4 = 3 \<and>
   acyclic (edges (graph (tasks (Pipeline_tasks diamond)))) \<and>
   (\<exists>st. fst (Pipeline_run trace_work (Pipeline_tasks diamond)) = Inr st \<and>
      4 \<in> fst ` set (completed st) \<and>
      fst ` set (completed st) = set (nodes (graph (tasks (Pipeline_tasks diamond)))) \<and>
      (\<exists>x y. map_of (completed st) (last_predecessor (graph (tasks (Pipeline_tasks diamond))) 4)
                = Some x \<and>
             trace_work 4 (Some x) = Inr y \<and> map_of (completed st) 4 = Some y) \<and>
      map_of (completed st) 2 = Some [2, 1] \<and> map_of (completed st) 3 = Some [3, 1] \<and>
      map_of (completed st) 4 = Some [4, 3, 1])"
proof -
  have ac: "acyclic (edges (graph (tasks (Pipeline_tasks diamond))))"
    unfolding diamond_graph by (simp add: edges_def acyclic_empty rtrancl_insert)
  have e: "(2, 4) \<in> edges (graph (tasks (Pipeline_tasks diamond)))"
    "(3, 4) \<in> edges (graph (tasks (Pipeline_tasks diamond)))"
    unfolding diamond_graph by (simp_all add: edges_def)
  have l: "last_predecessor (graph (tasks (Pipeline_tasks diamond))) 4 = 3"
    unfolding diamond_graph by (simp add: last_predecessor_def scanned_edges_def)
  note k = run_last_predecessor [OF diamond_run, THEN conjunct2, THEN mp, OF ac]
  from k [symmetric] diamond_run ac e l show ?thesis
    by (simp add: trace_work_def)
qed

subsection \<open>Linear chain\<close>

text \<open>C7: on a pipeline built by the decorator whose nodes are three different \<open>A\<close>,
  \<open>B\<close>, \<open>C\<close> and whose edges are \<open>A \<rightarrow> B\<close> and
  \<open>B \<rightarrow> C\<close>, when \<open>A()\<close> returns \<open>a\<close>,
  \<open>B(a)\<close> returns \<open>b\<close> and \<open>C(b)\<close> returns
  \<open>c\<close>, the run returns a table with \<open>a\<close>, \<open>b\<close> and
  \<open>c\<close> under \<open>A\<close>, \<open>B\<close> and \<open>C\<close>.\<close>

theorem run_chain:
  assumes d: "A \<noteq> B" "B \<noteq> C" "A \<noteq> C"
    and n: "set (nodes (graph (tasks (Pipeline_tasks regs)))) = {A, B, C}"
    and e: "edges (graph (tasks (Pipeline_tasks regs))) = {(A, B), (B, C)}"
    and w: "work A None = Inr a" "work B (Some a) = Inr b" "work C (Some b) = Inr c"
  shows "\<exists>st. fst (Pipeline_run work (Pipeline_tasks regs)) = Inr st \<and>
           map_of (completed st) A = Some a \<and> map_of (completed st) B = Some b \<and>
           map_of (completed st) C = Some c"
proof -
  let ?g = "graph (tasks (Pipeline_tasks regs))"
  have wf: "well_formed ?g" by (rule well_formed_tasks)
  have pA: "preds ?g A = []"
    using preds_set [of ?g A] e d by auto
  have sB: "set (preds ?g B) = {A}"
    using preds_set [of ?g B] e d by auto
  have sC: "set (preds ?g C) = {B}"
    using preds_set [of ?g C] e d by auto
  from sB have nB: "preds ?g B \<noteq> []" by auto
  from sC have nC: "preds ?g C \<noteq> []" by auto
  from last_in_set [OF nB] sB have lB: "last (preds ?g B) = A" by simp
  from last_in_set [OF nC] sC have lC: "last (preds ?g C) = B" by simp
  have recA: "map_of cc A = Some a" if "recorded work ?g cc A" for cc
    using that pA w(1) by (auto simp: recorded_def)
  have recB: "map_of cc B = Some b" if "recorded work ?g cc A" "recorded work ?g cc B" for cc
    using that(2) recA [OF that(1)] nB lB w(2) by (auto simp: recorded_def)
  have recC: "map_of cc C = Some b'" if "recorded work ?g cc A" "recorded work ?g cc B"
    "recorded work ?g cc C" "b' = c" for cc b'
    using that(3,4) recB [OF that(1,2)] nC lC w(3) by (auto simp: recorded_def)
  have ac: "acyclic (edges ?g)"
    unfolding e using d by (simp add: acyclic_empty rtrancl_insert)
  from run_cases [OF wf, of work] obtain scheduled where
    s: "distinct scheduled" "set scheduled \<subseteq> set (nodes ?g)" "topo ?g scheduled"
       "closed ?g scheduled"
       "case fst (Pipeline_run work (Pipeline_tasks regs)) of
          Inl (f, st) \<Rightarrow> run_failed work ?g scheduled f st
        | Inr st \<Rightarrow> run_ok work ?g scheduled st"
    by blast
  from acyclic_complete [OF wf ac s(2,4)] n have all: "set scheduled = {A, B, C}" by simp
  show ?thesis
  proof (cases "fst (Pipeline_run work (Pipeline_tasks regs))")
    case (Inr st)
    with s(5) all have "recorded work ?g (completed st) A" "recorded work ?g (completed st) B"
      "recorded work ?g (completed st) C"
      by (simp_all add: run_ok_def)
    with Inr recA recB recC show ?thesis by simp
  next
    case (Inl fs)
    obtain f st where fs: "fs = (f, st)" by (cases fs)
    with Inl s(5) have "run_failed work ?g scheduled f st" by simp
    then obtain e' pre t post x where
      r: "scheduled = pre @ t # post" "work t x = Inl e'" "legit ?g (completed st) t x"
         "\<forall>u \<in> set pre. recorded work ?g (completed st) u"
      unfolding run_failed_def by (elim exE conjE) (rule that)
    from s(3) r(1) have "topo ?g ((pre @ [t]) @ post)" by simp
    then have tp: "topo ?g (pre @ [t])" by (rule topo_prefix)
    from topo_snocD [OF tp] have tpre: "topo ?g pre" and pt: "set (preds ?g t) \<subseteq> set pre" .
    from r(1) all have "t = A \<or> t = B \<or> t = C" by auto
    then show ?thesis
    proof (elim disjE)
      assume t: "t = A"
      with r(3) pA have "x = None"
        by (cases x) (auto simp: legit_def)
      with t r(2) w(1) show ?thesis by simp
    next
      assume t: "t = B"
      with pt sB have "A \<in> set pre" by simp
      with r(4) have "map_of (completed st) A = Some a" by (simp add: recA)
      with t r(3) sB nB have "x = Some a"
        by (cases x) (auto simp: legit_def)
      with t r(2) w(2) show ?thesis by simp
    next
      assume t: "t = C"
      with pt sC have B: "B \<in> set pre" by simp
      from topo_preds [OF tpre B] sB have "A \<in> set pre" by simp
      with B r(4) have "map_of (completed st) B = Some b" by (simp add: recB)
      with t r(3) sC nC have "x = Some b"
        by (cases x) (auto simp: legit_def)
      with t r(2) w(3) show ?thesis by simp
    qed
  qed
qed

theorem run_chain_witness:
  "(1::nat) \<noteq> 2 \<and> (2::nat) \<noteq> 3 \<and> (1::nat) \<noteq> 3 \<and>
   set (nodes (graph (tasks (Pipeline_tasks chain)))) = {1, 2, 3} \<and>
   edges (graph (tasks (Pipeline_tasks chain))) = {(1, 2), (2, 3)} \<and>
   trace_work 1 None = Inr [1] \<and> trace_work 2 (Some [1]) = Inr [2, 1] \<and>
   trace_work 3 (Some [2, 1]) = Inr [3, 2, 1] \<and>
   (\<exists>st. fst (Pipeline_run trace_work (Pipeline_tasks chain)) = Inr st \<and>
      map_of (completed st) 1 = Some [1] \<and> map_of (completed st) 2 = Some [2, 1] \<and>
      map_of (completed st) 3 = Some [3, 2, 1])"
proof -
  have n: "set (nodes (graph (tasks (Pipeline_tasks chain)))) = {1, 2, 3}"
    unfolding chain_graph by (simp add: nodes_def)
  have e: "edges (graph (tasks (Pipeline_tasks chain))) = {(1, 2), (2, 3)}"
    unfolding chain_graph by (auto simp: edges_def)
  have w: "trace_work 1 None = Inr [1]" "trace_work 2 (Some [1]) = Inr [2, 1]"
    "trace_work 3 (Some [2, 1]) = Inr [3, 2, 1]"
    by (simp_all add: trace_work_def)
  have d: "(1::nat) \<noteq> 2" "(2::nat) \<noteq> 3" "(1::nat) \<noteq> 3"
    by simp_all
  from run_chain [OF d n e w] n e w show ?thesis
    by simp
qed

subsection \<open>Failure of a unit of work\<close>

text \<open>C8: at a failure the table is to hold exactly the entries of the nodes that completed before
  it. With two sources 1 and 2 pointing to 3, node 3 is invoked on the output of 1, its value
  is stored, and its invocation on the output of 2 raises: the table then has an entry for the
  failing node 3.\<close>

theorem failing_task_keeps_entry:
  "fst (DAG_sort (tasks (Pipeline_tasks two_sources))) = Inr [1, 2, 3] \<and>
   picky 3 (Some 20) = Inl ''boom'' \<and>
   fst (Pipeline_run picky (Pipeline_tasks two_sources)) =
     Inl (WorkFailure ''boom'',
          \<lparr>completed = [(1, 10), (2, 20), (3, 13)],
           calls = [(1, None), (2, None), (3, Some 10), (3, Some 20)]\<rparr>)"
  by (simp add: run_defs two_sources_def picky_def)

text \<open>C8, amended: when a run fails, the failure is the one raised by the last invocation, of a task
  \<open>t\<close> of the schedule, and is passed on as it is; every invocation before it
  returned; no task scheduled after \<open>t\<close> was invoked or has an entry; every task
  scheduled before \<open>t\<close> has its entry; and \<open>t\<close> itself has an entry
  exactly when an earlier invocation of it returned.\<close>

theorem run_failure_propagates:
  assumes "fst (Pipeline_run work (Pipeline_tasks regs)) = Inl (f, st)"
  shows "\<exists>e pre t post x cs.
           fst (DAG_sort (tasks (Pipeline_tasks regs))) = Inr (pre @ t # post) \<and>
           f = WorkFailure e \<and> work t x = Inl e \<and>
           calls st = cs @ [(t, x)] \<and> returned work cs \<and>
           fst ` set (calls st) \<inter> set post = {} \<and>
           fst ` set (completed st) \<inter> set post = {} \<and>
           set pre \<subseteq> fst ` set (completed st) \<and>
           fst ` set (completed st) \<subseteq> insert t (set pre) \<and>
           (t \<in> fst ` set (completed st) \<longleftrightarrow> t \<in> fst ` set cs) \<and>
           (\<forall>u \<in> set pre.
              recorded work (graph (tasks (Pipeline_tasks regs))) (completed st) u)"
proof -
  let ?g = "graph (tasks (Pipeline_tasks regs))"
  have wf: "well_formed ?g" by (rule well_formed_tasks)
  from run_cases [OF wf, of work] assms obtain scheduled where
    s: "fst (DAG_sort (tasks (Pipeline_tasks regs))) = Inr scheduled" "distinct scheduled"
       "run_failed work ?g scheduled f st"
    by auto
  from s(3) obtain e pre t post x cs where
    r: "f = WorkFailure e" "scheduled = pre @ t # post" "work t x = Inl e"
       "calls st = cs @ [(t, x)]" "returned work cs"
       "fst ` set (completed st) = fst ` set cs" "set pre \<subseteq> fst ` set cs"
       "fst ` set cs \<subseteq> insert t (set pre)"
       "\<forall>u \<in> set pre. recorded work ?g (completed st) u"
    unfolding run_failed_def by (elim exE conjE) (rule that)
  from s(2) r(2) have dis: "t \<notin> set post" "set pre \<inter> set post = {}"
    by auto
  have 1: "fst ` set (calls st) \<inter> set post = {}"
    using r(4,8) dis by auto
  have 2: "fst ` set (completed st) \<inter> set post = {}"
    using r(6,8) dis by auto
  from s(1) r 1 2 show ?thesis
    by (intro exI [of _ e] exI [of _ pre] exI [of _ t] exI [of _ post] exI [of _ x]
          exI [of _ cs]) simp
qed

theorem run_failure_propagates_witness:
  "fst (Pipeline_run evens_fails (Pipeline_tasks chain)) =
     Inl (WorkFailure ''boom'', \<lparr>completed = [(1, 1)], calls = [(1, None), (2, Some 1)]\<rparr>) \<and>
   (\<exists>e pre t post x cs.
      fst (DAG_sort (tasks (Pipeline_tasks chain))) = Inr (pre @ t # post) \<and>
      WorkFailure ''boom'' = WorkFailure e \<and> evens_fails t x = Inl e \<and>
      [(1, None), (2, Some 1)] = cs @ [(t, x)] \<and> returned evens_fails cs \<and>
      fst ` set [(1::nat, None :: nat option), (2, Some 1)] \<inter> set post = {} \<and>
      fst ` set [(1::nat, 1::nat)] \<inter> set post = {} \<and>
      set pre \<subseteq> fst ` set [(1::nat, 1::nat)] \<and>
      fst ` set [(1::nat, 1::nat)] \<subseteq> insert t (set pre) \<and>
      (t \<in> fst ` set [(1::nat, 1::nat)] \<longleftrightarrow> t \<in> fst ` set cs) \<and>
      (\<forall>u \<in> set pre.
         recorded evens_fails (graph (tasks (Pipeline_tasks chain))) [(1::nat, 1::nat)] u))"
  using run_failure_propagates [OF chain_fails] chain_fails by simp

subsection \<open>In-degrees\<close>

text \<open>C9: on every graph built by \<open>add\<close>, \<open>in_degrees\<close> leaves the graph as
  it is and builds a table whose keys are the nodes, each with the number of its occurrences
  in the successor lists.\<close>

theorem in_degrees_counts:
  "graph (DAG_in_degrees (DAG_adds ops)) = graph (DAG_adds ops) \<and>
   map_of (degrees (DAG_in_degrees (DAG_adds ops))) v =
     (if v \<in> set (nodes (graph (DAG_adds ops)))
      then Some (int (occurrences (graph (DAG_adds ops)) v)) else None)"
proof -
  have "well_formed (graph (DAG_adds ops))" by (rule well_formed_adds)
  then have "set (pointers (graph (DAG_adds ops))) \<subseteq> set (nodes (graph (DAG_adds ops)))"
    by (simp add: well_formed_def)
  with in_degrees_map_of [of "DAG_adds ops" v]
  have "map_of (degrees (DAG_in_degrees (DAG_adds ops))) v =
     (if v \<in> set (nodes (graph (DAG_adds ops)))
      then Some (int (occurrences (graph (DAG_adds ops)) v)) else None)"
    by auto
  moreover have "graph (DAG_in_degrees (DAG_adds ops)) = graph (DAG_adds ops)"
    by (simp add: DAG_in_degrees_def)
  ultimately show ?thesis by simp
qed

theorem in_degrees_counts_witness:
  "degrees (DAG_in_degrees (DAG_adds [(1::nat, Some 2), (3, Some 2), (2, Some 4)]))
     = [(1, 0), (2, 2), (4, 1), (3, 0)] \<and>
   map_of (degrees (DAG_in_degrees (DAG_adds [(1::nat, Some 2), (3, Some 2), (2, Some 4)]))) 2
     = Some (int (occurrences (graph (DAG_adds [(1::nat, Some 2), (3, Some 2), (2, Some 4)])) 2)) \<and>
   occurrences (graph (DAG_adds [(1::nat, Some 2), (3, Some 2), (2, Some 4)])) 2 = 2"
proof -
  have g: "graph (DAG_adds [(1::nat, Some 2), (3, Some 2), (2, Some 4)])
             = [(1, [2]), (2, [4]), (3, [2]), (4, [])]"
    by (simp add: eval_defs)
  have d: "degrees (DAG_in_degrees (DAG_adds [(1::nat, Some 2), (3, Some 2), (2, Some 4)]))
     = [(1, 0), (2, 2), (4, 1), (3, 0)]"
    by (simp add: eval_defs)
  have n: "(2::nat) \<in> set (nodes (graph (DAG_adds [(1::nat, Some 2), (3, Some 2), (2, Some 4)])))"
    unfolding g by (simp add: nodes_def)
  have o: "occurrences (graph (DAG_adds [(1::nat, Some 2), (3, Some 2), (2, Some 4)])) 2 = 2"
    unfolding g by (simp add: occurrences_def pointers_def)
  from in_degrees_counts [of "[(1::nat, Some 2), (3, Some 2), (2, Some 4)]" 2] n d o
  show ?thesis by simp
qed

subsection \<open>A run leaves the graph as it is\<close>

text \<open>C10: the adjacency mapping after \<open>run\<close> is the one before it, whether the run
  returns or fails.\<close>

theorem run_keeps_graph:
  "graph (tasks (snd (Pipeline_run work p))) = graph (tasks p)"
  by (simp add: Pipeline_run_def Let_def sort_graph split: sum.splits)

theorem run_keeps_graph_witness:
  "graph (tasks (Pipeline_tasks two_sources)) = [(1, [3]), (2, [3]), (3, [])] \<and>
   graph (tasks (snd (Pipeline_run picky (Pipeline_tasks two_sources)))) = [(1, [3]), (2, [3]), (3, [])] \<and>
   graph (tasks (snd (Pipeline_run trace_work (Pipeline_tasks two_sources)))) = [(1, [3]), (2, [3]), (3, [])]"
  using run_keeps_graph [of picky "Pipeline_tasks two_sources"]
    run_keeps_graph [of trace_work "Pipeline_tasks two_sources"] two_sources_graph
  by simp

end
